theory Spec2Isabelle
  imports Main "HOL-Library.Word" "HOL-Library.Code_Target_Nat"
begin

unbundle bit_operations_syntax

section \<open>Machine integers and \<open>utils::Mod\<close>\<close>

text \<open>
  \<open>uint32_t\<close> values are 32-bit words; the output of the random generator and the
  \<open>unsigned long\<close> mask of \<open>utils::Mod\<close> are 64-bit words (LP64).
\<close>

type_synonym u32 = "32 word"
type_synonym u64 = "64 word"

text \<open>
  \<^verbatim>\<open>inline uint32_t Mod(const uint32_t value, const uint32_t bitsize) {
    return value & ((1UL << bitsize) - 1UL); }\<close>
  The operand is promoted to 64 bits, masked, and narrowed to 32 bits on return. (A
  shift by 64 or more is undefined in C++; the engines use bit sizes up to 32.)
\<close>

definition Mod :: "u32 \<Rightarrow> u32 \<Rightarrow> u32" where
  "Mod val bitsize = ucast ((ucast val :: u64) AND (push_bit (unat bitsize) 1 - 1))"

section \<open>Randomness\<close>

text \<open>
  Modelled from the spec: \<open>rng::SecureRng\<close> (included by \<open>secret_sharing.cpp\<close>, its
  source is not among the sources) is an opaque source of 64-bit words and of single
  random bits (\<open>Rand64\<close>, \<open>RandBool\<close>). The
  generator state is the sequence of its future outputs; a draw returns the head and
  advances.
\<close>

type_synonym rng = "nat \<Rightarrow> u64"
type_synonym rngbool = "nat \<Rightarrow> bool"

definition Rand64 :: "rng \<Rightarrow> u64 \<times> rng" where
  "Rand64 g = (g 0, \<lambda>n. g (Suc n))"

definition RandBool :: "rngbool \<Rightarrow> bool \<times> rngbool" where
  "RandBool g = (g 0, \<lambda>n. g (Suc n))"

text \<open>The implicit C++ conversion of a \<open>bool\<close> to \<open>uint32_t\<close>.\<close>

definition of_bool32 :: "bool \<Rightarrow> u32" where
  "of_bool32 p = (if p then 1 else 0)"

section \<open>Errors\<close>

datatype error =
    InvalidArgument    \<comment> \<open>\<open>std::invalid_argument\<close> thrown by a constructor\<close>
  | ExitFailure        \<comment> \<open>\<open>exit(EXIT_FAILURE)\<close>\<close>
  | OutOfRange         \<comment> \<open>an unchecked \<open>operator[]\<close> read past the end of a vector\<close>
  | ProtocolDesync     \<comment> \<open>the peers disagree on the length of a vector exchange\<close>
  | ParseError         \<comment> \<open>a line of a share file is not a list of decimal numbers\<close>

section \<open>Transport endpoints and the party\<close>

record Server =
  port :: int
  server_fd :: int
  client_fd :: int
  total_bytes_sent :: u32

record Client =
  host_address :: string
  cl_port :: int
  cl_client_fd :: int
  cl_total_bytes_sent :: u32

record Party =
  party_id :: u32
  p0 :: Server
  p1 :: Client
  is_started :: bool

definition GetId :: "Party \<Rightarrow> u32" where
  "GetId party = party_id party"

text \<open>
  \<open>Party::SendRecv\<close>: party 0 sends \<open>x_0\<close> and then receives into \<open>x_1\<close>; any other
  party receives into \<open>x_0\<close> and then sends \<open>x_1\<close>. All overloads (scalar, array of 2,
  array of 4) have this body, so the model is polymorphic in the payload. The value
  arriving from the peer is the argument \<open>incoming\<close>; the result is the pair of slots
  after the call together with the payload that was put on the wire.

  Modelled from the spec: \<open>SendArray\<close> and \<open>RecvArray\<close> of the endpoints are not among
  the sources; as the scalar \<open>SendValue\<close>/\<open>RecvValue\<close> they deliver the
  whole payload, in order, or terminate the process. The protocol functions below
  describe the runs in which the exchange succeeds.
\<close>

definition SendRecv :: "Party \<Rightarrow> 'a \<Rightarrow> 'a \<Rightarrow> 'a \<Rightarrow> ('a \<times> 'a) \<times> 'a" where
  "SendRecv party x_0 x_1 incoming =
     (if party_id party = 0 then ((x_0, incoming), x_0) else ((incoming, x_1), x_1))"

text \<open>A party object as the harness holds it after start-up, for the examples below.\<close>

definition test_party :: "u32 \<Rightarrow> Party" where
  "test_party i =
     \<lparr>party_id = i,
      p0 = \<lparr>port = 12345, server_fd = 3, client_fd = 4, total_bytes_sent = 0\<rparr>,
      p1 = \<lparr>host_address = ''127.0.0.1'', cl_port = 12345, cl_client_fd = 3,
            cl_total_bytes_sent = 0\<rparr>,
      is_started = True\<rparr>"

section \<open>Beaver triples\<close>

text \<open>The fields \<open>a\<close>, \<open>b\<close>, \<open>c\<close> of \<open>struct BeaverTriplet\<close>.\<close>

record BeaverTriplet =
  bt_a :: u32
  bt_b :: u32
  bt_c :: u32

section \<open>Arithmetic secret sharing\<close>

record AdditiveSecretSharing =
  bitsize :: u32

definition new_AdditiveSecretSharing :: "u32 \<Rightarrow> error + AdditiveSecretSharing" where
  "new_AdditiveSecretSharing bs =
     (if bs \<le> 1 then Inl InvalidArgument else Inr \<lparr>bitsize = bs\<rparr>)"

text \<open>\<open>AdditiveSecretSharing::Share(const uint32_t x)\<close>; the 64-bit random word is
  narrowed to the 32-bit parameter of \<open>Mod\<close>.\<close>

definition Share :: "AdditiveSecretSharing \<Rightarrow> u32 \<Rightarrow> rng \<Rightarrow> (u32 \<times> u32) \<times> rng" where
  "Share ss x g =
     (let (r, g') = Rand64 g;
          x_0 = Mod (ucast r) (bitsize ss);
          x_1 = Mod (x - x_0) (bitsize ss)
      in ((x_0, x_1), g'))"

text \<open>\<open>AdditiveSecretSharing::Reconst(Party &, uint32_t x_0, uint32_t x_1)\<close>: the
  result and the value sent to the peer.\<close>

definition Reconst :: "AdditiveSecretSharing \<Rightarrow> Party \<Rightarrow> u32 \<Rightarrow> u32 \<Rightarrow> u32 \<Rightarrow> u32 \<times> u32" where
  "Reconst ss party x_0 x_1 incoming =
     (let ((x_0', x_1'), sent) = SendRecv party x_0 x_1 incoming
      in (Mod (x_0' + x_1') (bitsize ss), sent))"

text \<open>The overload on arrays of two \<open>uint32_t\<close>: one exchange of the whole array,
  then the loop over both indices.\<close>

definition Reconst_arr2 ::
  "AdditiveSecretSharing \<Rightarrow> Party \<Rightarrow> u32 \<times> u32 \<Rightarrow> u32 \<times> u32 \<Rightarrow> u32 \<times> u32
     \<Rightarrow> (u32 \<times> u32) \<times> (u32 \<times> u32)" where
  "Reconst_arr2 ss party x_arr_0 x_arr_1 incoming =
     (let ((x0, x1), sent) = SendRecv party x_arr_0 x_arr_1 incoming
      in ((Mod (fst x0 + fst x1) (bitsize ss), Mod (snd x0 + snd x1) (bitsize ss)), sent))"

text \<open>\<open>AdditiveSecretSharing::Mult(Party &, const BeaverTriplet &, x, y)\<close>: the
  output share and the array of masked differences sent to the peer.\<close>

definition Mult ::
  "AdditiveSecretSharing \<Rightarrow> Party \<Rightarrow> BeaverTriplet \<Rightarrow> u32 \<Rightarrow> u32 \<Rightarrow> u32 \<times> u32
     \<Rightarrow> u32 \<times> (u32 \<times> u32)" where
  "Mult ss party bt x y incoming =
     (let k = bitsize ss;
          de_0 = (if GetId party = 0 then (Mod (x - bt_a bt) k, Mod (y - bt_b bt) k) else (0, 0));
          de_1 = (if GetId party = 0 then (0, 0) else (Mod (x - bt_a bt) k, Mod (y - bt_b bt) k));
          (de, sent) = Reconst_arr2 ss party de_0 de_1 incoming;
          z = (if GetId party = 0
               then Mod ((snd de * bt_a bt) + (fst de * bt_b bt) + bt_c bt + (fst de * snd de)) k
               else Mod ((snd de * bt_a bt) + (fst de * bt_b bt) + bt_c bt) k)
      in (z, sent))"

text \<open>\<open>AdditiveSecretSharing::ShareBeaverTriples\<close>: the loop over the indices of
  \<open>bt_vec\<close>, drawing three random words per triple, in the order \<open>a\<close>, \<open>b\<close>, \<open>c\<close>.\<close>

fun ShareBeaverTriples ::
  "AdditiveSecretSharing \<Rightarrow> BeaverTriplet list \<Rightarrow> rng
     \<Rightarrow> (BeaverTriplet list \<times> BeaverTriplet list) \<times> rng" where
  "ShareBeaverTriples ss [] g = (([], []), g)"
| "ShareBeaverTriples ss (bt # bt_vec) g =
     (let (r1, g1) = Rand64 g;
          a0 = Mod (ucast r1) (bitsize ss);
          a1 = Mod (bt_a bt - a0) (bitsize ss);
          (r2, g2) = Rand64 g1;
          b0 = Mod (ucast r2) (bitsize ss);
          b1 = Mod (bt_b bt - b0) (bitsize ss);
          (r3, g3) = Rand64 g2;
          c0 = Mod (ucast r3) (bitsize ss);
          c1 = Mod (bt_c bt - c0) (bitsize ss);
          ((bt_vec_0, bt_vec_1), g') = ShareBeaverTriples ss bt_vec g3
      in ((\<lparr>bt_a = a0, bt_b = b0, bt_c = c0\<rparr> # bt_vec_0,
           \<lparr>bt_a = a1, bt_b = b1, bt_c = c1\<rparr> # bt_vec_1), g'))"

section \<open>Boolean secret sharing\<close>

text \<open>The methods of \<open>BooleanSecretSharing\<close> (a class without fields); the prefix
  \<open>Bool_\<close> tells them from the methods of the same name of the arithmetic engine.\<close>

definition Bool_Share :: "u32 \<Rightarrow> rngbool \<Rightarrow> (u32 \<times> u32) \<times> rngbool" where
  "Bool_Share x g =
     (let (r, g') = RandBool g;
          x_0 = of_bool32 r;
          x_1 = x XOR x_0
      in ((x_0, x_1), g'))"

definition Bool_Reconst :: "Party \<Rightarrow> u32 \<Rightarrow> u32 \<Rightarrow> u32 \<Rightarrow> u32 \<times> u32" where
  "Bool_Reconst party x_0 x_1 incoming =
     (let ((x_0', x_1'), sent) = SendRecv party x_0 x_1 incoming
      in (x_0' XOR x_1', sent))"

definition Bool_Reconst_arr2 ::
  "Party \<Rightarrow> u32 \<times> u32 \<Rightarrow> u32 \<times> u32 \<Rightarrow> u32 \<times> u32 \<Rightarrow> (u32 \<times> u32) \<times> (u32 \<times> u32)" where
  "Bool_Reconst_arr2 party x_arr_0 x_arr_1 incoming =
     (let ((x0, x1), sent) = SendRecv party x_arr_0 x_arr_1 incoming
      in ((fst x0 XOR fst x1, snd x0 XOR snd x1), sent))"

fun Bool_ShareBeaverTriples ::
  "BeaverTriplet list \<Rightarrow> rngbool \<Rightarrow> (BeaverTriplet list \<times> BeaverTriplet list) \<times> rngbool" where
  "Bool_ShareBeaverTriples [] g = (([], []), g)"
| "Bool_ShareBeaverTriples (bt # bt_vec) g =
     (let (r1, g1) = RandBool g;
          a0 = of_bool32 r1;
          a1 = bt_a bt XOR a0;
          (r2, g2) = RandBool g1;
          b0 = of_bool32 r2;
          b1 = bt_b bt XOR b0;
          (r3, g3) = RandBool g2;
          c0 = of_bool32 r3;
          c1 = bt_c bt XOR c0;
          ((bt_vec_0, bt_vec_1), g') = Bool_ShareBeaverTriples bt_vec g3
      in ((\<lparr>bt_a = a0, bt_b = b0, bt_c = c0\<rparr> # bt_vec_0,
           \<lparr>bt_a = a1, bt_b = b1, bt_c = c1\<rparr> # bt_vec_1), g'))"

text \<open>\<open>BooleanSecretSharing::And(Party &, const BeaverTriplet &, x_b, y_b)\<close>.\<close>

definition And ::
  "Party \<Rightarrow> BeaverTriplet \<Rightarrow> u32 \<Rightarrow> u32 \<Rightarrow> u32 \<times> u32 \<Rightarrow> u32 \<times> (u32 \<times> u32)" where
  "And party bt x_b y_b incoming =
     (let de_0 = (if GetId party = 0 then (x_b XOR bt_a bt, y_b XOR bt_b bt) else (0, 0));
          de_1 = (if GetId party = 0 then (0, 0) else (x_b XOR bt_a bt, y_b XOR bt_b bt));
          (de, sent) = Bool_Reconst_arr2 party de_0 de_1 incoming;
          z_b = (if GetId party = 0
                 then (snd de AND bt_a bt) XOR (fst de AND bt_b bt) XOR bt_c bt XOR (fst de AND snd de)
                 else (snd de AND bt_a bt) XOR (fst de AND bt_b bt) XOR bt_c bt)
      in (z_b, sent))"

text \<open>\<open>BooleanSecretSharing::Or(Party &, const BeaverTriplet &, x_b, y_b)\<close>.\<close>

definition Or ::
  "Party \<Rightarrow> BeaverTriplet \<Rightarrow> u32 \<Rightarrow> u32 \<Rightarrow> u32 \<times> u32 \<Rightarrow> u32 \<times> (u32 \<times> u32)" where
  "Or party bt x_b y_b incoming =
     (if GetId party = 0
      then (let nx_b = x_b XOR 1;
                ny_b = y_b XOR 1;
                (zb_0, sent) = And party bt nx_b ny_b incoming
            in (zb_0 XOR 1, sent))
      else And party bt x_b y_b incoming)"

section \<open>Sockets: the byte transport and the start of a party\<close>

text \<open>
  The operating system as the endpoints see it: the return values the coming system
  calls will give, in order, and the log of the calls made so far. A call made when
  no return value is left fails with \<open>-1\<close>.
\<close>

datatype syscall =
    SysSocket
  | SysSetsockopt int
  | SysBind int int
  | SysListen int int
  | SysAccept int
  | SysConnect int string int

record os =
  pending :: "int list"
  calls :: "syscall list"

definition sys :: "syscall \<Rightarrow> os \<Rightarrow> int \<times> os" where
  "sys c w =
     (case pending w of
        [] \<Rightarrow> (- 1, w\<lparr>calls := calls w @ [c]\<rparr>)
      | r # rs \<Rightarrow> (r, w\<lparr>pending := rs, calls := calls w @ [c]\<rparr>))"

text \<open>\<open>Server::Setup\<close>: \<open>socket\<close>, \<open>setsockopt\<close>, \<open>bind\<close>, \<open>listen\<close> with backlog 3; every
  failure ends the process.\<close>

definition Server_Setup :: "Server \<Rightarrow> os \<Rightarrow> error + (Server \<times> os)" where
  "Server_Setup s w =
     (let (fd, w1) = sys SysSocket w;
          s1 = s\<lparr>server_fd := fd\<rparr>
      in if fd < 0 then Inl ExitFailure
         else let (r2, w2) = sys (SysSetsockopt fd) w1
              in if r2 < 0 then Inl ExitFailure
                 else let (r3, w3) = sys (SysBind fd (port s1)) w2
                      in if r3 < 0 then Inl ExitFailure
                         else let (r4, w4) = sys (SysListen fd 3) w3
                              in if r4 < 0 then Inl ExitFailure else Inr (s1, w4))"

text \<open>\<open>Server::Start\<close>: \<open>accept\<close> one client.\<close>

definition Server_Start :: "Server \<Rightarrow> os \<Rightarrow> error + (Server \<times> os)" where
  "Server_Start s w =
     (let (fd, w1) = sys (SysAccept (server_fd s)) w;
          s1 = s\<lparr>client_fd := fd\<rparr>
      in if fd < 0 then Inl ExitFailure else Inr (s1, w1))"

text \<open>\<open>Client::Setup\<close> and \<open>Client::Start\<close>: \<open>socket\<close>, then \<open>connect\<close>.\<close>

definition Client_Setup :: "Client \<Rightarrow> os \<Rightarrow> error + (Client \<times> os)" where
  "Client_Setup c w =
     (let (fd, w1) = sys SysSocket w;
          c1 = c\<lparr>cl_client_fd := fd\<rparr>
      in if fd < 0 then Inl ExitFailure else Inr (c1, w1))"

definition Client_Start :: "Client \<Rightarrow> os \<Rightarrow> error + (Client \<times> os)" where
  "Client_Start c w =
     (let (status, w1) = sys (SysConnect (cl_client_fd c) (host_address c) (cl_port c)) w
      in if status < 0 then Inl ExitFailure else Inr (c, w1))"

text \<open>\<open>Server::ClearTotalBytesSent\<close>, \<open>Client::ClearTotalBytesSent\<close> and the methods of
  \<open>Party\<close> that dispatch on the party id.\<close>

definition Server_ClearTotalBytesSent :: "Server \<Rightarrow> Server" where
  "Server_ClearTotalBytesSent s = s\<lparr>total_bytes_sent := 0\<rparr>"

definition Client_ClearTotalBytesSent :: "Client \<Rightarrow> Client" where
  "Client_ClearTotalBytesSent c = c\<lparr>cl_total_bytes_sent := 0\<rparr>"

definition ClearTotalBytesSent :: "Party \<Rightarrow> Party" where
  "ClearTotalBytesSent party =
     (if party_id party = 0
      then party\<lparr>p0 := Server_ClearTotalBytesSent (p0 party)\<rparr>
      else party\<lparr>p1 := Client_ClearTotalBytesSent (p1 party)\<rparr>)"

definition GetTotalBytesSent :: "Party \<Rightarrow> u32" where
  "GetTotalBytesSent party =
     (if party_id party = 0 then total_bytes_sent (p0 party) else cl_total_bytes_sent (p1 party))"

text \<open>\<open>Party::StartCommunication\<close> (its parameter \<open>debug\<close> is not used): the counter is
  cleared first, then the latch is tested, then the endpoint of the party is set up
  and started, and the latch is set.\<close>

definition StartCommunication :: "Party \<Rightarrow> os \<Rightarrow> error + (Party \<times> os)" where
  "StartCommunication party w =
     (let party1 = ClearTotalBytesSent party
      in if is_started party1 then Inr (party1, w)
         else if party_id party1 = 0
         then (case Server_Setup (p0 party1) w of
                 Inl e \<Rightarrow> Inl e
               | Inr (s1, w1) \<Rightarrow>
                   (case Server_Start s1 w1 of
                      Inl e \<Rightarrow> Inl e
                    | Inr (s2, w2) \<Rightarrow> Inr (party1\<lparr>p0 := s2, is_started := True\<rparr>, w2)))
         else (case Client_Setup (p1 party1) w of
                 Inl e \<Rightarrow> Inl e
               | Inr (c1, w1) \<Rightarrow>
                   (case Client_Start c1 w1 of
                      Inl e \<Rightarrow> Inl e
                    | Inr (c2, w2) \<Rightarrow> Inr (party1\<lparr>p1 := c2, is_started := True\<rparr>, w2))))"

text \<open>
  \<open>comm::internal::SendData\<close> and \<open>RecvData\<close>. The buffer is a list of bytes; the
  counters are \<open>ssize_t\<close>, modelled as unbounded integers (the sum stays below twice
  the buffer size). The argument \<open>rets\<close> lists the values the successive calls of
  \<open>send\<close> (of \<open>recv\<close>) return. A call \<open>send(fd, data, data_size, 0)\<close> that returns
  \<open>r > 0\<close> has put the first \<open>r\<close> bytes of the memory at \<open>data\<close> on the wire; a call
  \<open>recv(fd, buffer, buffer_size, 0)\<close> that returns \<open>r > 0\<close> has moved the next \<open>r\<close>
  bytes of the incoming stream to the memory at \<open>buffer\<close>. The result is \<open>None\<close> when
  the loop is still running after the last listed call (the call blocks).
\<close>

type_synonym byte = "8 word"

fun SendData_loop :: "byte list \<Rightarrow> int \<Rightarrow> int list \<Rightarrow> byte list \<Rightarrow> (bool \<times> byte list) option" where
  "SendData_loop data total_sent_bytes [] wire =
     (if total_sent_bytes < int (length data) then None else Some (True, wire))"
| "SendData_loop data total_sent_bytes (sent_bytes # rets) wire =
     (if total_sent_bytes < int (length data)
      then (if sent_bytes \<le> 0 then Some (False, wire)
            else SendData_loop data (total_sent_bytes + sent_bytes) rets
                   (wire @ take (nat sent_bytes) data))
      else Some (True, wire))"

text \<open>The result of \<open>SendData\<close>: the returned flag and the bytes put on the wire.\<close>

definition SendData :: "byte list \<Rightarrow> int list \<Rightarrow> (bool \<times> byte list) option" where
  "SendData data rets = SendData_loop data 0 rets []"

fun RecvData_loop ::
  "byte list \<Rightarrow> int \<Rightarrow> int list \<Rightarrow> byte list \<Rightarrow> (bool \<times> byte list \<times> byte list) option" where
  "RecvData_loop buffer total_received_bytes [] stream =
     (if total_received_bytes < int (length buffer) then None else Some (True, buffer, stream))"
| "RecvData_loop buffer total_received_bytes (received_bytes # rets) stream =
     (if total_received_bytes < int (length buffer)
      then (if received_bytes \<le> 0 then Some (False, buffer, stream)
            else RecvData_loop
                   (take (nat received_bytes) stream @ drop (nat received_bytes) buffer)
                   (total_received_bytes + received_bytes) rets
                   (drop (nat received_bytes) stream))
      else Some (True, buffer, stream))"

text \<open>The result of \<open>RecvData\<close>: the returned flag, the buffer and the rest of the
  incoming stream.\<close>

definition RecvData :: "byte list \<Rightarrow> int list \<Rightarrow> byte list \<Rightarrow> (bool \<times> byte list \<times> byte list) option" where
  "RecvData buffer rets stream = RecvData_loop buffer 0 rets stream"

section \<open>Vector operations of the arithmetic engine\<close>

text \<open>An unchecked \<open>operator[]\<close> read: past the end of the vector the behaviour is
  undefined, which the model reports as \<open>OutOfRange\<close>.\<close>

definition at :: "'a list \<Rightarrow> nat \<Rightarrow> error + 'a" where
  "at xs i = (if i < length xs then Inr (xs ! i) else Inl OutOfRange)"

text \<open>A loop \<open>for (size_t i = 0; i < n; i++)\<close> over a state that a step may abort.\<close>

primrec for_upto :: "nat \<Rightarrow> (nat \<Rightarrow> 's \<Rightarrow> error + 's) \<Rightarrow> 's \<Rightarrow> error + 's" where
  "for_upto 0 body s = Inr s"
| "for_upto (Suc n) body s =
     (case for_upto n body s of Inl e \<Rightarrow> Inl e | Inr s' \<Rightarrow> body n s')"

text \<open>
  Modelled from the spec: \<open>SendVector\<close> and \<open>RecvVector\<close> of the endpoints (declared
  in the server's header, their definitions are not among the sources). A vector of length \<open>n\<close> travels as
  \<open>4 * n\<close> bytes without a length prefix, and the receiver reads as many words as its
  slot holds; the exchange is well-formed only when the peer sent that many, and is a
  \<open>ProtocolDesync\<close> otherwise.
\<close>

definition RecvVector :: "u32 list \<Rightarrow> u32 list \<Rightarrow> error + u32 list" where
  "RecvVector slot incoming =
     (if length incoming = length slot then Inr incoming else Inl ProtocolDesync)"

text \<open>\<open>Party::SendRecv\<close> on vectors.\<close>

definition SendRecv_vec ::
  "Party \<Rightarrow> u32 list \<Rightarrow> u32 list \<Rightarrow> u32 list \<Rightarrow> error + ((u32 list \<times> u32 list) \<times> u32 list)" where
  "SendRecv_vec party x_vec_0 x_vec_1 incoming =
     (if party_id party = 0
      then (case RecvVector x_vec_1 incoming of
              Inl e \<Rightarrow> Inl e
            | Inr v \<Rightarrow> Inr ((x_vec_0, v), x_vec_0))
      else (case RecvVector x_vec_0 incoming of
              Inl e \<Rightarrow> Inl e
            | Inr v \<Rightarrow> Inr ((v, x_vec_1), x_vec_1)))"

text \<open>\<open>AdditiveSecretSharing::Reconst\<close> on vectors: the length of \<open>output\<close> bounds the
  loop.\<close>

definition Reconst_vec_step ::
  "AdditiveSecretSharing \<Rightarrow> u32 list \<Rightarrow> u32 list \<Rightarrow> nat \<Rightarrow> u32 list \<Rightarrow> error + u32 list" where
  "Reconst_vec_step ss x_vec_0 x_vec_1 i output =
     (case at x_vec_0 i of
        Inl e \<Rightarrow> Inl e
      | Inr a0 \<Rightarrow>
          (case at x_vec_1 i of
             Inl e \<Rightarrow> Inl e
           | Inr a1 \<Rightarrow> Inr (output[i := Mod (a0 + a1) (bitsize ss)])))"

definition Reconst_vec ::
  "AdditiveSecretSharing \<Rightarrow> Party \<Rightarrow> u32 list \<Rightarrow> u32 list \<Rightarrow> u32 list \<Rightarrow> u32 list
     \<Rightarrow> error + (u32 list \<times> u32 list)" where
  "Reconst_vec ss party x_vec_0 x_vec_1 output incoming =
     (case SendRecv_vec party x_vec_0 x_vec_1 incoming of
        Inl e \<Rightarrow> Inl e
      | Inr ((x0, x1), sent) \<Rightarrow>
          (case for_upto (length output) (Reconst_vec_step ss x0 x1) output of
             Inl e \<Rightarrow> Inl e
           | Inr output' \<Rightarrow> Inr (output', sent)))"

text \<open>
  \<open>AdditiveSecretSharing::Mult\<close> on vectors. The size of \<open>z_vec\<close> is the number of
  multiplications; \<open>x_vec\<close>, \<open>y_vec\<close> and \<open>bt_vec\<close> are read at the indices below it,
  unchecked. The state of the first loop is the pair \<open>(de_vec_0, de_vec_1)\<close>, the state
  of the second loop is \<open>z_vec\<close>.
\<close>

definition Mult_vec_diff ::
  "AdditiveSecretSharing \<Rightarrow> Party \<Rightarrow> BeaverTriplet list \<Rightarrow> u32 list \<Rightarrow> u32 list \<Rightarrow> nat
     \<Rightarrow> u32 list \<times> u32 list \<Rightarrow> error + (u32 list \<times> u32 list)" where
  "Mult_vec_diff ss party bt_vec x_vec y_vec i de =
     (case at x_vec i of
        Inl e \<Rightarrow> Inl e
      | Inr x \<Rightarrow>
          (case at bt_vec i of
             Inl e \<Rightarrow> Inl e
           | Inr bt \<Rightarrow>
               (case at y_vec i of
                  Inl e \<Rightarrow> Inl e
                | Inr y \<Rightarrow>
                    (let d = Mod (x - bt_a bt) (bitsize ss);
                         e = Mod (y - bt_b bt) (bitsize ss)
                     in if GetId party = 0
                        then Inr ((fst de)[2 * i := d, 2 * i + 1 := e], snd de)
                        else Inr (fst de, (snd de)[2 * i := d, 2 * i + 1 := e])))))"

definition Mult_vec_combine ::
  "AdditiveSecretSharing \<Rightarrow> Party \<Rightarrow> BeaverTriplet list \<Rightarrow> u32 list \<Rightarrow> nat
     \<Rightarrow> u32 list \<Rightarrow> error + u32 list" where
  "Mult_vec_combine ss party bt_vec de_vec i z_vec =
     (case at de_vec (2 * i + 1) of
        Inl e \<Rightarrow> Inl e
      | Inr e \<Rightarrow>
          (case at bt_vec i of
             Inl err \<Rightarrow> Inl err
           | Inr bt \<Rightarrow>
               (case at de_vec (2 * i) of
                  Inl err \<Rightarrow> Inl err
                | Inr d \<Rightarrow>
                    (if GetId party = 0
                     then Inr (z_vec[i := Mod ((e * bt_a bt) + (d * bt_b bt) + bt_c bt + (d * e))
                                            (bitsize ss)])
                     else Inr (z_vec[i := Mod ((e * bt_a bt) + (d * bt_b bt) + bt_c bt)
                                            (bitsize ss)])))))"

definition Mult_vec ::
  "AdditiveSecretSharing \<Rightarrow> Party \<Rightarrow> BeaverTriplet list \<Rightarrow> u32 list \<Rightarrow> u32 list \<Rightarrow> u32 list
     \<Rightarrow> u32 list \<Rightarrow> error + (u32 list \<times> u32 list)" where
  "Mult_vec ss party bt_vec x_vec y_vec z_vec incoming =
     (let num = length z_vec;
          de_vec = replicate (num * 2) 0;
          de_vec_0 = replicate (num * 2) 0;
          de_vec_1 = replicate (num * 2) 0
      in case for_upto num (Mult_vec_diff ss party bt_vec x_vec y_vec) (de_vec_0, de_vec_1) of
           Inl e \<Rightarrow> Inl e
         | Inr (de_vec_0', de_vec_1') \<Rightarrow>
             (case Reconst_vec ss party de_vec_0' de_vec_1' de_vec incoming of
                Inl e \<Rightarrow> Inl e
              | Inr (de_vec', sent) \<Rightarrow>
                  (case for_upto num (Mult_vec_combine ss party bt_vec de_vec') z_vec of
                     Inl e \<Rightarrow> Inl e
                   | Inr z_vec' \<Rightarrow> Inr (z_vec', sent))))"

section \<open>Share persistence\<close>

text \<open>The decimal text that \<open>operator<<\<close> writes for an unsigned integer.\<close>

definition digit_char :: "nat \<Rightarrow> char" where
  "digit_char d = ''0123456789'' ! d"

fun to_decimal :: "nat \<Rightarrow> string" where
  "to_decimal n =
     (if n < 10 then [digit_char n] else to_decimal (n div 10) @ [digit_char (n mod 10)])"

text \<open>
  Modelled from the spec: the conversion of a field of a share file to \<open>uint32_t\<close>
  inside \<open>FileIo::ReadNumCountFromFile\<close> and \<open>FileIo::SplitStringToUint32\<close> (of
  \<open>FileIo\<close> only the header \<open>file_io.hpp\<close> is among the sources). A field is a non-empty run of decimal
  digits whose value fits 32 bits; anything else is malformed.
\<close>

definition digit_val :: "char \<Rightarrow> nat option" where
  "digit_val ch =
     (if ch = CHR ''0'' then Some 0 else if ch = CHR ''1'' then Some 1
      else if ch = CHR ''2'' then Some 2 else if ch = CHR ''3'' then Some 3
      else if ch = CHR ''4'' then Some 4 else if ch = CHR ''5'' then Some 5
      else if ch = CHR ''6'' then Some 6 else if ch = CHR ''7'' then Some 7
      else if ch = CHR ''8'' then Some 8 else if ch = CHR ''9'' then Some 9
      else None)"

primrec parse_digits :: "nat \<Rightarrow> string \<Rightarrow> nat option" where
  "parse_digits acc [] = Some acc"
| "parse_digits acc (ch # cs) =
     (case digit_val ch of None \<Rightarrow> None | Some d \<Rightarrow> parse_digits (10 * acc + d) cs)"

definition parse_uint32 :: "string \<Rightarrow> u32 option" where
  "parse_uint32 s =
     (if s = [] then None
      else case parse_digits 0 s of
             None \<Rightarrow> None
           | Some n \<Rightarrow> if n < 2 ^ 32 then Some (word_of_nat n) else None)"

text \<open>\<open>std::getline\<close> on the rest of an input stream: the text up to the next line
  feed, which is consumed; it fails when nothing is left.\<close>

definition getline :: "string \<Rightarrow> (string \<times> string) option" where
  "getline stream =
     (if stream = [] then None
      else Some (takeWhile (\<lambda>ch. ch \<noteq> CHR 0x0A) stream,
                 drop 1 (dropWhile (\<lambda>ch. ch \<noteq> CHR 0x0A) stream)))"

text \<open>
  Modelled from the spec: \<open>FileIo::ReadNumCountFromFile\<close> reads the first line and
  returns the count it holds, or 0 when the line is missing or malformed.
\<close>

definition ReadNumCountFromFile :: "string \<Rightarrow> u32 \<times> string" where
  "ReadNumCountFromFile stream =
     (case getline stream of
        None \<Rightarrow> (0, stream)
      | Some (line, rest) \<Rightarrow>
          (case parse_uint32 line of None \<Rightarrow> (0, rest) | Some n \<Rightarrow> (n, rest)))"

text \<open>
  Modelled from the spec: \<open>FileIo::SplitStringToUint32\<close> cuts the line at every comma
  and converts each field; a malformed field is a \<open>ParseError\<close>.
\<close>

primrec split_comma :: "string \<Rightarrow> string \<Rightarrow> string list" where
  "split_comma field [] = (if field = [] then [] else [field])"
| "split_comma field (ch # cs) =
     (if ch = CHR '','' then field # split_comma [] cs else split_comma (field @ [ch]) cs)"

primrec parse_fields :: "string list \<Rightarrow> error + u32 list" where
  "parse_fields [] = Inr []"
| "parse_fields (f # fs) =
     (case parse_uint32 f of
        None \<Rightarrow> Inl ParseError
      | Some v \<Rightarrow> (case parse_fields fs of Inl e \<Rightarrow> Inl e | Inr vs \<Rightarrow> Inr (v # vs)))"

definition SplitStringToUint32 :: "string \<Rightarrow> error + u32 list" where
  "SplitStringToUint32 str = parse_fields (split_comma [] str)"

text \<open>The file system: the text stored under each path.\<close>

type_synonym filesystem = "string \<Rightarrow> string option"

text \<open>\<open>ShareHandler::WriteBeaverTriplesToFile\<close>. Whether \<open>OpenFile\<close> succeeds in opening
  the file for writing (truncating it) is the argument \<open>opened\<close>; the process exits when
  it does not.\<close>

primrec write_triples :: "BeaverTriplet list \<Rightarrow> string" where
  "write_triples [] = []"
| "write_triples (bt # bt_vec) =
     to_decimal (unat (bt_a bt)) @ '','' @ to_decimal (unat (bt_b bt)) @ '','' @
     to_decimal (unat (bt_c bt)) @ [CHR 0x0A] @ write_triples bt_vec"

definition WriteBeaverTriplesToFile ::
  "filesystem \<Rightarrow> bool \<Rightarrow> string \<Rightarrow> BeaverTriplet list \<Rightarrow> error + filesystem" where
  "WriteBeaverTriplesToFile files opened file_path bt_vec =
     (if \<not> opened then Inl ExitFailure
      else Inr (files(file_path \<mapsto>
                  to_decimal (length bt_vec) @ [CHR 0x0A] @ write_triples bt_vec)))"

text \<open>\<open>ShareHandler::ReadBeaverTriplesFromFile\<close>: when the file cannot be opened
  \<open>bt_vec\<close> keeps its value; otherwise as many lines as the count says are read, a
  missing line is skipped, and each line gives the triple of its first three fields.\<close>

primrec read_triples :: "nat \<Rightarrow> string \<Rightarrow> BeaverTriplet list \<Rightarrow> error + BeaverTriplet list" where
  "read_triples 0 stream bts = Inr bts"
| "read_triples (Suc n) stream bts =
     (case getline stream of
        None \<Rightarrow> read_triples n stream bts
      | Some (line, rest) \<Rightarrow>
          (case SplitStringToUint32 line of
             Inl e \<Rightarrow> Inl e
           | Inr vec \<Rightarrow>
               (case at vec 0 of
                  Inl e \<Rightarrow> Inl e
                | Inr va \<Rightarrow>
                    (case at vec 1 of
                       Inl e \<Rightarrow> Inl e
                     | Inr vb \<Rightarrow>
                         (case at vec 2 of
                            Inl e \<Rightarrow> Inl e
                          | Inr vc \<Rightarrow>
                              read_triples n rest
                                (bts @ [\<lparr>bt_a = va, bt_b = vb, bt_c = vc\<rparr>]))))))"

definition ReadBeaverTriplesFromFile ::
  "filesystem \<Rightarrow> string \<Rightarrow> BeaverTriplet list \<Rightarrow> error + BeaverTriplet list" where
  "ReadBeaverTriplesFromFile files file_path bt_vec =
     (case files file_path of
        None \<Rightarrow> Inr bt_vec
      | Some text \<Rightarrow>
          (let (size, stream) = ReadNumCountFromFile text
           in read_triples (unat size) stream []))"

section \<open>Facts about \<open>Mod\<close>\<close>

lemma Mod_take_bit: "Mod v k = take_bit (unat k) v"
  unfolding Mod_def
  by (rule bit_word_eqI)
     (auto simp add: bit_simps simp flip: mask_eq_exp_minus_1)

lemma unat_take_bit32: "unat (take_bit n (v :: u32)) = unat v mod 2 ^ n"
  unfolding unsigned_take_bit_eq by (rule take_bit_eq_mod)

lemma unat_Mod: "unat (Mod v k) = unat v mod 2 ^ unat k"
  unfolding Mod_take_bit by (rule unat_take_bit32)

lemma Mod_less: "unat (Mod v k) < 2 ^ unat k"
  by (simp add: unat_Mod)

lemma take_bit_eq_iff_unat:
  "(take_bit n (x :: u32) = take_bit n y) \<longleftrightarrow> (unat x mod 2 ^ n = unat y mod 2 ^ n)"
proof
  assume "take_bit n x = take_bit n y"
  then have "unat (take_bit n x) = unat (take_bit n y)" by simp
  then show "unat x mod 2 ^ n = unat y mod 2 ^ n"
    unfolding unat_take_bit32 .
next
  assume "unat x mod 2 ^ n = unat y mod 2 ^ n"
  then have "unat (take_bit n x) = unat (take_bit n y)"
    unfolding unat_take_bit32 .
  then show "take_bit n x = take_bit n y"
    by (rule word_unat_eq_iff [THEN iffD2])
qed

lemma take_bit_add_left: "take_bit n (take_bit n x + y) = take_bit n (x + y)"
  for x y :: "'a::len word"
  by transfer (simp add: take_bit_eq_mod min_def mod_simps)

lemma take_bit_add_right: "take_bit n (x + take_bit n y) = take_bit n (x + y)"
  for x y :: "'a::len word"
  by transfer (simp add: take_bit_eq_mod min_def mod_simps)

lemma take_bit_diff_left: "take_bit n (take_bit n x - y) = take_bit n (x - y)"
  for x y :: "'a::len word"
  by transfer (simp add: take_bit_eq_mod min_def mod_simps)

lemma take_bit_diff_right: "take_bit n (x - take_bit n y) = take_bit n (x - y)"
  for x y :: "'a::len word"
  by transfer (simp add: take_bit_eq_mod min_def mod_simps)

lemma take_bit_mult_left: "take_bit n (take_bit n x * y) = take_bit n (x * y)"
  for x y :: "'a::len word"
  by transfer (simp add: take_bit_eq_mod min_def mod_simps)

lemma take_bit_mult_right: "take_bit n (x * take_bit n y) = take_bit n (x * y)"
  for x y :: "'a::len word"
  by transfer (simp add: take_bit_eq_mod min_def mod_simps)

lemmas take_bit_ring_simps =
  take_bit_add_left take_bit_add_right take_bit_diff_left take_bit_diff_right
  take_bit_mult_left take_bit_mult_right

lemma mod_word_size_mod:
  assumes "n \<le> 32"
  shows "m mod 4294967296 mod 2 ^ n = (m :: nat) mod 2 ^ n"
proof -
  have "(2::nat) ^ n dvd 2 ^ 32"
    using assms by (rule le_imp_power_dvd)
  then have "m mod 2 ^ 32 mod 2 ^ n = m mod 2 ^ n"
    by (rule mod_mod_cancel)
  then show ?thesis by simp
qed

lemma unat_add_mod: "n \<le> 32 \<Longrightarrow> unat (x + y :: u32) mod 2 ^ n = (unat x + unat y) mod 2 ^ n"
  by (simp add: unat_word_ariths mod_word_size_mod)

lemma unat_mult_mod: "n \<le> 32 \<Longrightarrow> unat (x * y :: u32) mod 2 ^ n = (unat x * unat y) mod 2 ^ n"
  by (simp add: unat_word_ariths mod_word_size_mod)


section \<open>Congruence modulo a power of two on words\<close>

lemma take_bit_cong_add:
  "take_bit n (x :: 'a::len word) = take_bit n x' \<Longrightarrow> take_bit n (x + y) = take_bit n (x' + y)"
  by (metis take_bit_add_left)

lemma take_bit_cong_mult:
  "take_bit n (x :: 'a::len word) = take_bit n x' \<Longrightarrow> take_bit n y = take_bit n y'
    \<Longrightarrow> take_bit n (x * y) = take_bit n (x' * y')"
  by (metis take_bit_mult_left take_bit_mult_right)

lemma take_bit_cong_diff:
  "take_bit n (x :: 'a::len word) = take_bit n x' \<Longrightarrow> take_bit n y = take_bit n y'
    \<Longrightarrow> take_bit n (x - y) = take_bit n (x' - y')"
  by (metis take_bit_diff_left take_bit_diff_right)

lemma take_bit_cong_add2:
  "take_bit n (x :: 'a::len word) = take_bit n x' \<Longrightarrow> take_bit n y = take_bit n y'
    \<Longrightarrow> take_bit n (x + y) = take_bit n (x' + y')"
  by (metis take_bit_add_left take_bit_add_right)

lemma take_bit_cong_strip:
  "take_bit n (x :: 'a::len word) = take_bit n x' \<Longrightarrow> take_bit n (take_bit n x) = take_bit n x'"
  by simp

lemmas take_bit_congs = take_bit_cong_strip take_bit_cong_add2 take_bit_cong_mult take_bit_cong_diff

lemma beaver_core:
  fixes x0 x1 y0 y1 a0 a1 b0 b1 c0 c1 :: "'a::len word"
  assumes c: "take_bit n (c0 + c1) = take_bit n ((a0 + a1) * (b0 + b1))"
  defines "d \<equiv> take_bit n (take_bit n (x0 - a0) + take_bit n (x1 - a1))"
      and "e \<equiv> take_bit n (take_bit n (y0 - b0) + take_bit n (y1 - b1))"
  shows "take_bit n (take_bit n (e * a0 + d * b0 + c0 + d * e) + take_bit n (e * a1 + d * b1 + c1))
       = take_bit n ((x0 + x1) * (y0 + y1))"
proof -
  let ?D = "(x0 - a0) + (x1 - a1)" and ?E = "(y0 - b0) + (y1 - b1)"
  let ?R = "?E * (a0 + a1) + ?D * (b0 + b1) + ?D * ?E"
  have "take_bit n (take_bit n (e * a0 + d * b0 + c0 + d * e) + take_bit n (e * a1 + d * b1 + c1))
      = take_bit n ((?E * a0 + ?D * b0 + c0 + ?D * ?E) + (?E * a1 + ?D * b1 + c1))"
    unfolding d_def e_def by (intro take_bit_congs refl)
  also have "(?E * a0 + ?D * b0 + c0 + ?D * ?E) + (?E * a1 + ?D * b1 + c1) = (c0 + c1) + ?R"
    by (simp add: algebra_simps)
  also have "take_bit n ((c0 + c1) + ?R) = take_bit n ((a0 + a1) * (b0 + b1) + ?R)"
    using c by (rule take_bit_cong_add)
  also have "(a0 + a1) * (b0 + b1) + ?R = (x0 + x1) * (y0 + y1)"
    by (simp add: algebra_simps)
  finally show ?thesis .
qed

lemma word_cong_of_unat_add:
  assumes "n \<le> 32" and "(unat x0 + unat x1) mod 2 ^ n = unat x mod 2 ^ n"
  shows "take_bit n (x0 + x1 :: u32) = take_bit n x"
  using assms by (simp add: take_bit_eq_iff_unat unat_add_mod)

lemma Mult_party0:
  "party_id P = 0 \<Longrightarrow> Mult ss P bt x y incoming =
     (let k = bitsize ss; d0 = Mod (x - bt_a bt) k; e0 = Mod (y - bt_b bt) k;
          d = Mod (d0 + fst incoming) k; e = Mod (e0 + snd incoming) k
      in (Mod (e * bt_a bt + d * bt_b bt + bt_c bt + d * e) k, (d0, e0)))"
  by (simp add: Mult_def GetId_def Reconst_arr2_def SendRecv_def Let_def)

lemma Mult_party1:
  "party_id P \<noteq> 0 \<Longrightarrow> Mult ss P bt x y incoming =
     (let k = bitsize ss; d1 = Mod (x - bt_a bt) k; e1 = Mod (y - bt_b bt) k;
          d = Mod (fst incoming + d1) k; e = Mod (snd incoming + e1) k
      in (Mod (e * bt_a bt + d * bt_b bt + bt_c bt) k, (d1, e1)))"
  by (simp add: Mult_def GetId_def Reconst_arr2_def SendRecv_def Let_def)


section \<open>Sharing and reconstruction\<close>

lemma Share_eq: "Share ss x g = ((Mod (ucast (g 0)) (bitsize ss), Mod (x - Mod (ucast (g 0)) (bitsize ss)) (bitsize ss)), \<lambda>n. g (Suc n))"
  by (simp add: Share_def Rand64_def Let_def)

lemma Share_sum:
  assumes "unat k \<le> 32"
  shows "(unat (Mod r k) + unat (Mod (x - Mod r k) k)) mod 2 ^ unat k = unat x mod 2 ^ unat k"
proof -
  have "take_bit (unat k) (Mod r k + Mod (x - Mod r k) k) = take_bit (unat k) x"
    by (simp add: Mod_take_bit take_bit_ring_simps)
  then have "unat (Mod r k + Mod (x - Mod r k) k) mod 2 ^ unat k = unat x mod 2 ^ unat k"
    by (simp only: take_bit_eq_iff_unat)
  then show ?thesis
    by (simp only: unat_add_mod [OF assms])
qed


lemma Share_shares:
  assumes "2 \<le> unat (bitsize ss)" and "unat (bitsize ss) \<le> 32"
      and "Share ss x g = ((x_0, x_1), g')"
  shows "unat x_0 < 2 ^ unat (bitsize ss) \<and> unat x_1 < 2 ^ unat (bitsize ss)
       \<and> Mod x_0 (bitsize ss) = x_0 \<and> Mod x_1 (bitsize ss) = x_1
       \<and> (unat x_0 + unat x_1) mod 2 ^ unat (bitsize ss) = unat x mod 2 ^ unat (bitsize ss)"
proof -
  let ?k = "bitsize ss"
  have x0: "x_0 = Mod (ucast (g 0)) ?k" and x1: "x_1 = Mod (x - x_0) ?k"
    using assms(3) by (auto simp add: Share_eq)
  have "Mod x_0 ?k = x_0" "Mod x_1 ?k = x_1"
    by (simp_all add: x0 x1 Mod_take_bit)
  moreover have "unat x_0 < 2 ^ unat ?k" "unat x_1 < 2 ^ unat ?k"
    unfolding x0 x1 by (rule Mod_less)+
  moreover have "(unat x_0 + unat x_1) mod 2 ^ unat ?k = unat x mod 2 ^ unat ?k"
    unfolding x1 unfolding x0 by (rule Share_sum [OF assms(2)])
  ultimately show ?thesis by simp
qed

text \<open>
  Claim C10. \<open>Share\<close> accepts any 32-bit input: for every bit-width between 2 and 32,
  every input word and every state of the random generator, both shares are below
  \<open>2 ^ k\<close> (they are their own low \<open>k\<close> bits) and their sum is congruent to the input
  modulo \<open>2 ^ k\<close>; an input of \<open>2 ^ k\<close> or more is reduced, not rejected.
\<close>

theorem Share_canonical:
  assumes "2 \<le> unat (bitsize ss)" and "unat (bitsize ss) \<le> 32"
      and "Share ss x g = ((x_0, x_1), g')"
  shows "unat x_0 < 2 ^ unat (bitsize ss) \<and> unat x_1 < 2 ^ unat (bitsize ss)
       \<and> Mod x_0 (bitsize ss) = x_0 \<and> Mod x_1 (bitsize ss) = x_1
       \<and> (unat x_0 + unat x_1) mod 2 ^ unat (bitsize ss) = unat x mod 2 ^ unat (bitsize ss)"
  using assms by (rule Share_shares)

theorem Share_canonical_witness:
  "2 \<le> unat (bitsize \<lparr>bitsize = 8\<rparr>) \<and> unat (bitsize \<lparr>bitsize = 8\<rparr>) \<le> 32
   \<and> Share \<lparr>bitsize = 8\<rparr> 1000 (\<lambda>n. 300) = ((44, 188), \<lambda>n. 300)
   \<and> unat (44 :: u32) < 2 ^ 8 \<and> unat (188 :: u32) < 2 ^ 8
   \<and> (unat (44 :: u32) + unat (188 :: u32)) mod 2 ^ 8 = unat (1000 :: u32) mod 2 ^ 8"
proof -
  have k: "2 \<le> unat (bitsize \<lparr>bitsize = 8\<rparr>)" "unat (bitsize \<lparr>bitsize = 8\<rparr>) \<le> 32"
    by simp_all
  have s: "Share \<lparr>bitsize = 8\<rparr> 1000 (\<lambda>n. 300) = ((44, 188), \<lambda>n. 300)"
    by (simp add: Share_eq Mod_take_bit)
  show ?thesis
    using Share_canonical [OF k s] k s by simp
qed


text \<open>
  Claim C4. Sharing a value \<open>v < 2 ^ k\<close> and reconstructing it is the identity: the two
  shares add up to \<open>v\<close> modulo \<open>2 ^ k\<close>, and when party 0 and party 1 run \<open>Reconst\<close>
  on their shares and each receives what the other sent, both return \<open>v\<close>.
\<close>

theorem Share_Reconst_identity:
  assumes "2 \<le> unat (bitsize ss)" and "unat (bitsize ss) \<le> 32"
      and "unat v < 2 ^ unat (bitsize ss)"
      and "Share ss v g = ((s0, s1), g')"
      and "party_id P0 = 0" and "party_id P1 = 1"
      and "Reconst ss P0 s0 slot0 in0 = (r0, out0)"
      and "Reconst ss P1 slot1 s1 in1 = (r1, out1)"
      and "in0 = out1" and "in1 = out0"
  shows "(unat s0 + unat s1) mod 2 ^ unat (bitsize ss) = unat v \<and> r0 = v \<and> r1 = v"
proof -
  let ?k = "bitsize ss"
  have sum: "(unat s0 + unat s1) mod 2 ^ unat ?k = unat v"
    using Share_shares [OF assms(1,2,4)] assms(3) by simp
  have "unat (Mod (s0 + s1) ?k) = unat v"
    using sum by (simp add: unat_Mod unat_add_mod [OF assms(2)])
  then have m: "Mod (s0 + s1) ?k = v"
    by (rule word_unat_eq_iff [THEN iffD2])
  have "out0 = s0" "out1 = s1"
    using assms(5-8) by (auto simp add: Reconst_def SendRecv_def)
  then have "r0 = Mod (s0 + s1) ?k" "r1 = Mod (s0 + s1) ?k"
    using assms(5-10) by (auto simp add: Reconst_def SendRecv_def)
  with sum m show ?thesis by simp
qed

theorem Share_Reconst_identity_witness:
  "Share \<lparr>bitsize = 32\<rparr> 0xDEADBEEF (\<lambda>n. 0x11111111) = ((0x11111111, 0xCD9CADDE), \<lambda>n. 0x11111111)
   \<and> Reconst \<lparr>bitsize = 32\<rparr> (test_party 0) 0x11111111 0 0xCD9CADDE = (0xDEADBEEF, 0x11111111)
   \<and> Reconst \<lparr>bitsize = 32\<rparr> (test_party 1) 0 0xCD9CADDE 0x11111111 = (0xDEADBEEF, 0xCD9CADDE)
   \<and> (unat (0x11111111 :: u32) + unat (0xCD9CADDE :: u32)) mod 2 ^ 32 = unat (0xDEADBEEF :: u32)"
proof -
  let ?ss = "\<lparr>bitsize = 32\<rparr>"
  have k: "2 \<le> unat (bitsize ?ss)" "unat (bitsize ?ss) \<le> 32"
    by simp_all
  have v: "unat (0xDEADBEEF :: u32) < 2 ^ unat (bitsize ?ss)"
    by simp
  have s: "Share ?ss 0xDEADBEEF (\<lambda>n. 0x11111111) = ((0x11111111, 0xCD9CADDE), \<lambda>n. 0x11111111)"
    by (simp add: Share_eq Mod_take_bit)
  have ids: "party_id (test_party 0) = 0" "party_id (test_party 1) = 1"
    by (simp_all add: test_party_def)
  have r0: "Reconst ?ss (test_party 0) 0x11111111 0 0xCD9CADDE = (0xDEADBEEF, 0x11111111)"
    by (simp add: Reconst_def SendRecv_def test_party_def Mod_take_bit)
  have r1: "Reconst ?ss (test_party 1) 0 0xCD9CADDE 0x11111111 = (0xDEADBEEF, 0xCD9CADDE)"
    by (simp add: Reconst_def SendRecv_def test_party_def Mod_take_bit)
  show ?thesis
    using Share_Reconst_identity [OF k v s ids r0 r1 refl refl] s r0 r1 by simp
qed

section \<open>Beaver multiplication\<close>

text \<open>
  Claim C1. For a bit-width \<open>k\<close> between 2 and 32, operands \<open>u\<close>, \<open>v\<close>, a clear triple
  with \<open>c\<close> congruent to \<open>a * b\<close> modulo \<open>2 ^ k\<close>, and any additive splitting of
  \<open>u\<close>, \<open>v\<close>, \<open>a\<close>, \<open>b\<close>, \<open>c\<close> among the two parties: when party 0 and party 1 run
  \<open>Mult\<close> on their shares and each receives the masked differences the other sent,
  the two outputs add up to \<open>u * v\<close> modulo \<open>2 ^ k\<close>. The operands need not be
  reduced below \<open>2 ^ k\<close>.
\<close>

theorem Mult_correct:
  fixes k :: nat and u v a b c :: u32
  assumes "k = unat (bitsize ss)" and "2 \<le> k" and "k \<le> 32"
      and "unat c mod 2 ^ k = (unat a * unat b) mod 2 ^ k"
      and "(unat u0 + unat u1) mod 2 ^ k = unat u mod 2 ^ k"
      and "(unat v0 + unat v1) mod 2 ^ k = unat v mod 2 ^ k"
      and "(unat (bt_a t0) + unat (bt_a t1)) mod 2 ^ k = unat a mod 2 ^ k"
      and "(unat (bt_b t0) + unat (bt_b t1)) mod 2 ^ k = unat b mod 2 ^ k"
      and "(unat (bt_c t0) + unat (bt_c t1)) mod 2 ^ k = unat c mod 2 ^ k"
      and "party_id P0 = 0" and "party_id P1 = 1"
      and "Mult ss P0 t0 u0 v0 in0 = (z0, out0)"
      and "Mult ss P1 t1 u1 v1 in1 = (z1, out1)"
      and "in0 = out1" and "in1 = out0"
  shows "(unat z0 + unat z1) mod 2 ^ k = (unat u * unat v) mod 2 ^ k"
proof -
  note le = \<open>k \<le> 32\<close>
  have wu: "take_bit k (u0 + u1) = take_bit k u"
    using le assms(5) by (rule word_cong_of_unat_add)
  have wv: "take_bit k (v0 + v1) = take_bit k v"
    using le assms(6) by (rule word_cong_of_unat_add)
  have wa: "take_bit k (bt_a t0 + bt_a t1) = take_bit k a"
    using le assms(7) by (rule word_cong_of_unat_add)
  have wb: "take_bit k (bt_b t0 + bt_b t1) = take_bit k b"
    using le assms(8) by (rule word_cong_of_unat_add)
  have "take_bit k c = take_bit k (a * b)"
    using assms(4) le by (simp add: take_bit_eq_iff_unat unat_mult_mod)
  moreover have "take_bit k (bt_c t0 + bt_c t1) = take_bit k c"
    using le assms(9) by (rule word_cong_of_unat_add)
  moreover have "take_bit k (a * b) = take_bit k ((bt_a t0 + bt_a t1) * (bt_b t0 + bt_b t1))"
    using wa wb by (intro take_bit_cong_mult) simp_all
  ultimately have wc: "take_bit k (bt_c t0 + bt_c t1)
      = take_bit k ((bt_a t0 + bt_a t1) * (bt_b t0 + bt_b t1))"
    by simp
  have p1: "party_id P1 \<noteq> 0"
    using assms(11) by simp
  let ?K = "bitsize ss"
  have o0: "out0 = (Mod (u0 - bt_a t0) ?K, Mod (v0 - bt_b t0) ?K)"
    using assms(12) unfolding Mult_party0 [OF assms(10)] Let_def by simp
  have o1: "out1 = (Mod (u1 - bt_a t1) ?K, Mod (v1 - bt_b t1) ?K)"
    using assms(13) unfolding Mult_party1 [OF p1] Let_def by simp
  define d where "d = Mod (Mod (u0 - bt_a t0) ?K + Mod (u1 - bt_a t1) ?K) ?K"
  define e where "e = Mod (Mod (v0 - bt_b t0) ?K + Mod (v1 - bt_b t1) ?K) ?K"
  have z0: "z0 = Mod (e * bt_a t0 + d * bt_b t0 + bt_c t0 + d * e) ?K"
    using assms(12) unfolding Mult_party0 [OF assms(10)] Let_def assms(14) o1 d_def e_def
    by simp
  have z1: "z1 = Mod (e * bt_a t1 + d * bt_b t1 + bt_c t1) ?K"
    using assms(13) unfolding Mult_party1 [OF p1] Let_def assms(15) o0 d_def e_def
    by simp
  have "take_bit k (z0 + z1) = take_bit k (take_bit k z0 + take_bit k z1)"
    by (intro take_bit_congs refl) simp_all
  also have "\<dots> = take_bit k ((u0 + u1) * (v0 + v1))"
    unfolding z0 z1 d_def e_def Mod_take_bit assms(1) [symmetric] take_bit_take_bit min.idem
    by (rule beaver_core [OF wc])
  also have "\<dots> = take_bit k (u * v)"
    using wu wv by (rule take_bit_cong_mult)
  finally show ?thesis
    using le by (simp add: take_bit_eq_iff_unat unat_add_mod unat_mult_mod)
qed

theorem Mult_correct_witness:
  "Mult \<lparr>bitsize = 32\<rparr> (test_party 0) \<lparr>bt_a = 1, bt_b = 2, bt_c = 10\<rparr> 2 1 (3, 2)
     = (23, (1, 0xFFFFFFFF))
   \<and> Mult \<lparr>bitsize = 32\<rparr> (test_party 1) \<lparr>bt_a = 2, bt_b = 3, bt_c = 5\<rparr> 5 5 (1, 0xFFFFFFFF)
     = (19, (3, 2))
   \<and> (unat (23 :: u32) + unat (19 :: u32)) mod 2 ^ 32 = (unat (7 :: u32) * unat (6 :: u32)) mod 2 ^ 32"
proof -
  let ?ss = "\<lparr>bitsize = 32\<rparr>"
  let ?t0 = "\<lparr>bt_a = 1, bt_b = 2, bt_c = 10\<rparr>" and ?t1 = "\<lparr>bt_a = 2, bt_b = 3, bt_c = 5\<rparr>"
  have k: "(32::nat) = unat (bitsize ?ss)" "(2::nat) \<le> 32" "(32::nat) \<le> 32"
    by simp_all
  have c: "unat (15 :: u32) mod 2 ^ 32 = (unat (3 :: u32) * unat (5 :: u32)) mod 2 ^ 32"
    by simp
  have u: "(unat (2 :: u32) + unat (5 :: u32)) mod 2 ^ 32 = unat (7 :: u32) mod 2 ^ 32"
    by simp
  have v: "(unat (1 :: u32) + unat (5 :: u32)) mod 2 ^ 32 = unat (6 :: u32) mod 2 ^ 32"
    by simp
  have a: "(unat (bt_a ?t0) + unat (bt_a ?t1)) mod 2 ^ 32 = unat (3 :: u32) mod 2 ^ 32"
    by simp
  have b: "(unat (bt_b ?t0) + unat (bt_b ?t1)) mod 2 ^ 32 = unat (5 :: u32) mod 2 ^ 32"
    by simp
  have c': "(unat (bt_c ?t0) + unat (bt_c ?t1)) mod 2 ^ 32 = unat (15 :: u32) mod 2 ^ 32"
    by simp
  have ids: "party_id (test_party 0) = 0" "party_id (test_party 1) = 1"
    by (simp_all add: test_party_def)
  have m0: "Mult ?ss (test_party 0) ?t0 2 1 (3, 2) = (23, (1, 0xFFFFFFFF))"
    by (simp add: Mult_party0 [OF ids(1)] Mod_take_bit Let_def mask_eq_exp_minus_1)
  have m1: "Mult ?ss (test_party 1) ?t1 5 5 (1, 0xFFFFFFFF) = (19, (3, 2))"
    by (simp add: Mult_party1 ids Mod_take_bit Let_def mask_eq_exp_minus_1)
  show ?thesis
    using Mult_correct [OF k c u v a b c' ids m0 m1 refl refl] m0 m1 by simp
qed

section \<open>Secure AND and OR\<close>

lemma And_party0:
  "party_id P = 0 \<Longrightarrow> And P bt x y incoming =
     (let d0 = x XOR bt_a bt; e0 = y XOR bt_b bt;
          d = d0 XOR fst incoming; e = e0 XOR snd incoming
      in ((e AND bt_a bt) XOR (d AND bt_b bt) XOR bt_c bt XOR (d AND e), (d0, e0)))"
  by (simp add: And_def GetId_def Bool_Reconst_arr2_def SendRecv_def Let_def)

lemma And_party1:
  "party_id P \<noteq> 0 \<Longrightarrow> And P bt x y incoming =
     (let d1 = x XOR bt_a bt; e1 = y XOR bt_b bt;
          d = fst incoming XOR d1; e = snd incoming XOR e1
      in ((e AND bt_a bt) XOR (d AND bt_b bt) XOR bt_c bt, (d1, e1)))"
  by (simp add: And_def GetId_def Bool_Reconst_arr2_def SendRecv_def Let_def)

lemma beaver_and_core:
  fixes x0 x1 y0 y1 a0 a1 b0 b1 c0 c1 :: "'a::len word"
  assumes "c0 XOR c1 = (a0 XOR a1) AND (b0 XOR b1)"
  defines "d \<equiv> (x0 XOR a0) XOR (x1 XOR a1)" and "e \<equiv> (y0 XOR b0) XOR (y1 XOR b1)"
  shows "((e AND a0) XOR (d AND b0) XOR c0 XOR (d AND e)) XOR ((e AND a1) XOR (d AND b1) XOR c1)
       = (x0 XOR x1) AND (y0 XOR y1)"
proof -
  have "c1 = c0 XOR ((a0 XOR a1) AND (b0 XOR b1))"
    using assms(1) by (metis xor.left_commute xor_self_eq xor.right_neutral xor.commute)
  then show ?thesis
    unfolding d_def e_def
    by (intro bit_word_eqI) (auto simp add: bit_simps)
qed

lemma bit_or_01:
  "x \<in> {0, 1} \<Longrightarrow> y \<in> {0, 1} \<Longrightarrow> ((x XOR 1) AND (y XOR 1)) XOR 1 = x OR (y :: u32)"
  by auto

text \<open>
  Claim C5. Secure OR: for clear bits \<open>x\<close>, \<open>y\<close> in \<open>{0, 1}\<close>, a boolean triple with
  \<open>c = a AND b\<close>, and any XOR splitting of \<open>x\<close>, \<open>y\<close>, \<open>a\<close>, \<open>b\<close>, \<open>c\<close> among the two
  parties: when party 0 (which flips its input shares and its output share) and
  party 1 (which runs a plain \<open>And\<close>) run \<open>Or\<close> and each receives what the other sent,
  the XOR of the two output shares is \<open>x OR y\<close>.
\<close>

theorem Or_correct:
  fixes x y a b c :: u32
  assumes "x \<in> {0, 1}" and "y \<in> {0, 1}" and "c = a AND b"
      and "x0 XOR x1 = x" and "y0 XOR y1 = y"
      and "bt_a t0 XOR bt_a t1 = a" and "bt_b t0 XOR bt_b t1 = b" and "bt_c t0 XOR bt_c t1 = c"
      and "party_id P0 = 0" and "party_id P1 = 1"
      and "Or P0 t0 x0 y0 in0 = (z0, out0)"
      and "Or P1 t1 x1 y1 in1 = (z1, out1)"
      and "in0 = out1" and "in1 = out0"
  shows "z0 XOR z1 = x OR y"
proof -
  have p1: "party_id P1 \<noteq> 0"
    using assms(10) by simp
  have wc: "bt_c t0 XOR bt_c t1 = (bt_a t0 XOR bt_a t1) AND (bt_b t0 XOR bt_b t1)"
    using assms(3,6-8) by simp
  let ?nx = "x0 XOR 1" and ?ny = "y0 XOR 1"
  have o0: "out0 = (?nx XOR bt_a t0, ?ny XOR bt_b t0)"
    using assms(11) unfolding Or_def GetId_def And_party0 [OF assms(9)] Let_def
    by (simp add: assms(9))
  have o1: "out1 = (x1 XOR bt_a t1, y1 XOR bt_b t1)"
    using assms(12) unfolding Or_def GetId_def And_party1 [OF p1] Let_def
    by (simp add: p1)
  define d where "d = (?nx XOR bt_a t0) XOR (x1 XOR bt_a t1)"
  define e where "e = (?ny XOR bt_b t0) XOR (y1 XOR bt_b t1)"
  have z0: "z0 = ((e AND bt_a t0) XOR (d AND bt_b t0) XOR bt_c t0 XOR (d AND e)) XOR 1"
    using assms(11) unfolding Or_def GetId_def And_party0 [OF assms(9)] Let_def assms(13) o1 d_def e_def
    by (simp add: assms(9))
  have z1: "z1 = (e AND bt_a t1) XOR (d AND bt_b t1) XOR bt_c t1"
    using assms(12) unfolding Or_def GetId_def And_party1 [OF p1] Let_def assms(14) o0 d_def e_def
    by (simp add: p1)
  have "z0 XOR z1 = (((e AND bt_a t0) XOR (d AND bt_b t0) XOR bt_c t0 XOR (d AND e))
       XOR ((e AND bt_a t1) XOR (d AND bt_b t1) XOR bt_c t1)) XOR 1"
    unfolding z0 z1 by (simp add: ac_simps)
  also have "\<dots> = ((?nx XOR x1) AND (?ny XOR y1)) XOR 1"
    unfolding d_def e_def by (simp only: beaver_and_core [OF wc])
  also have "\<dots> = ((x XOR 1) AND (y XOR 1)) XOR 1"
    unfolding assms(4,5) [symmetric] by (simp add: ac_simps)
  also have "\<dots> = x OR y"
    using assms(1,2) by (rule bit_or_01)
  finally show ?thesis .
qed

theorem Or_correct_witness:
  "Or (test_party 0) \<lparr>bt_a = 0, bt_b = 1, bt_c = 1\<rparr> 0 1 (0, 1) = (1, (1, 1))
   \<and> Or (test_party 1) \<lparr>bt_a = 1, bt_b = 0, bt_c = 0\<rparr> 1 1 (1, 1) = (0, (0, 1))
   \<and> (1 :: u32) XOR 0 = 1 OR 0"
proof -
  let ?t0 = "\<lparr>bt_a = 0, bt_b = 1, bt_c = 1\<rparr>" and ?t1 = "\<lparr>bt_a = 1, bt_b = 0, bt_c = 0\<rparr>"
  have xy: "(1 :: u32) \<in> {0, 1}" "(0 :: u32) \<in> {0, 1}"
    by simp_all
  have c: "(1 :: u32) = 1 AND 1"
    by simp
  have sh: "(0 :: u32) XOR 1 = 1" "(1 :: u32) XOR 1 = 0"
    by simp_all
  have t: "bt_a ?t0 XOR bt_a ?t1 = 1" "bt_b ?t0 XOR bt_b ?t1 = 1" "bt_c ?t0 XOR bt_c ?t1 = 1"
    by simp_all
  have ids: "party_id (test_party 0) = 0" "party_id (test_party 1) = 1"
    by (simp_all add: test_party_def)
  have o0: "Or (test_party 0) ?t0 0 1 (0, 1) = (1, (1, 1))"
    by (simp add: Or_def GetId_def And_party0 ids)
  have o1: "Or (test_party 1) ?t1 1 1 (1, 1) = (0, (0, 1))"
    by (simp add: Or_def GetId_def And_party1 ids)
  show ?thesis
    using Or_correct [OF xy c sh t ids o0 o1 refl refl] o0 o1 by simp
qed

section \<open>The low-bit invariant of the boolean engine\<close>

lemma bit01_xor: "x \<in> {0, 1} \<Longrightarrow> y \<in> {0, 1} \<Longrightarrow> x XOR y \<in> {0, 1 :: u32}"
  by auto

lemma bit01_and: "x \<in> {0, 1} \<Longrightarrow> y \<in> {0, 1} \<Longrightarrow> x AND y \<in> {0, 1 :: u32}"
  by auto

lemma bit01_of_bool32: "of_bool32 p \<in> {0, 1}"
  by (simp add: of_bool32_def)

lemma bit01_one: "(1 :: u32) \<in> {0, 1}" and bit01_zero: "(0 :: u32) \<in> {0, 1}"
  by simp_all

lemmas bit01_intros = bit01_xor bit01_and bit01_of_bool32 bit01_one bit01_zero

lemma Bool_Share_eq:
  "Bool_Share x g = ((of_bool32 (g 0), x XOR of_bool32 (g 0)), \<lambda>n. g (Suc n))"
  by (simp add: Bool_Share_def RandBool_def Let_def)

lemma And_bit01:
  assumes "x \<in> {0, 1}" and "y \<in> {0, 1}"
      and "fst incoming \<in> {0, 1}" and "snd incoming \<in> {0, 1}"
      and "bt_a bt \<in> {0, 1}" and "bt_b bt \<in> {0, 1}" and "bt_c bt \<in> {0, 1}"
  shows "fst (And P bt x y incoming) \<in> {0, 1}"
proof (cases "party_id P = 0")
  case True
  show ?thesis
    unfolding And_def GetId_def Bool_Reconst_arr2_def SendRecv_def Let_def
    using True by (simp del: insert_iff) (intro bit01_intros assms)
next
  case False
  show ?thesis
    unfolding And_def GetId_def Bool_Reconst_arr2_def SendRecv_def Let_def
    using False by (simp del: insert_iff) (intro bit01_intros assms)
qed

text \<open>
  Claim C8. The boolean engine keeps every cell in \<open>{0, 1}\<close>: both shares of a secret
  in \<open>{0, 1}\<close> are in \<open>{0, 1}\<close>, and for operand shares, values received from the peer
  and triple components in \<open>{0, 1}\<close>, the results of \<open>Reconst\<close>, \<open>And\<close> and \<open>Or\<close> are in
  \<open>{0, 1}\<close>, at either party.
\<close>

theorem Boolean_low_bit_invariant:
  assumes "x \<in> {0, 1}" and "y \<in> {0, 1}"
      and "peer \<in> {0, 1}" and "fst incoming \<in> {0, 1}" and "snd incoming \<in> {0, 1}"
      and "bt_a bt \<in> {0, 1}" and "bt_b bt \<in> {0, 1}" and "bt_c bt \<in> {0, 1}"
  shows "fst (fst (Bool_Share x g)) \<in> {0, 1} \<and> snd (fst (Bool_Share x g)) \<in> {0, 1}
       \<and> fst (Bool_Reconst P x y peer) \<in> {0, 1}
       \<and> fst (And P bt x y incoming) \<in> {0, 1}
       \<and> fst (Or P bt x y incoming) \<in> {0, 1}"
proof -
  have s: "fst (fst (Bool_Share x g)) \<in> {0, 1}" "snd (fst (Bool_Share x g)) \<in> {0, 1}"
    unfolding Bool_Share_eq by (simp_all del: insert_iff) (intro bit01_intros assms)+
  have r: "fst (Bool_Reconst P x y peer) \<in> {0, 1}"
    unfolding Bool_Reconst_def SendRecv_def Let_def
    by (simp del: insert_iff) (intro conjI impI bit01_intros assms)
  have a: "fst (And P bt x y incoming) \<in> {0, 1}"
    using assms(1,2,4-8) by (rule And_bit01)
  have nx: "x XOR 1 \<in> {0, 1}" and ny: "y XOR 1 \<in> {0, 1}"
    by (intro bit01_intros assms)+
  have "fst (And P bt (x XOR 1) (y XOR 1) incoming) \<in> {0, 1}"
    using nx ny assms(4-8) by (rule And_bit01)
  then have "fst (And P bt (x XOR 1) (y XOR 1) incoming) XOR 1 \<in> {0, 1}"
    by (intro bit01_intros)
  then have o: "fst (Or P bt x y incoming) \<in> {0, 1}"
    using a unfolding Or_def Let_def by (simp add: split_beta del: insert_iff)
  from s r a o show ?thesis by simp
qed

theorem Boolean_low_bit_invariant_witness:
  "fst (fst (Bool_Share 1 (\<lambda>n. True))) \<in> {0, 1} \<and> snd (fst (Bool_Share 1 (\<lambda>n. True))) \<in> {0, 1}
   \<and> fst (Bool_Reconst (test_party 0) 1 0 1) \<in> {0, 1}
   \<and> fst (And (test_party 0) \<lparr>bt_a = 0, bt_b = 1, bt_c = 1\<rparr> 1 0 (0, 1)) \<in> {0, 1}
   \<and> fst (Or (test_party 0) \<lparr>bt_a = 0, bt_b = 1, bt_c = 1\<rparr> 1 0 (0, 1)) \<in> {0, 1}"
proof -
  let ?bt = "\<lparr>bt_a = 0, bt_b = 1, bt_c = 1\<rparr>"
  have b: "(1 :: u32) \<in> {0, 1}" "(0 :: u32) \<in> {0, 1}"
    by simp_all
  have i: "fst (0 :: u32, 1 :: u32) \<in> {0, 1}" "snd (0 :: u32, 1 :: u32) \<in> {0, 1}"
    by simp_all
  have t: "bt_a ?bt \<in> {0, 1}" "bt_b ?bt \<in> {0, 1}" "bt_c ?bt \<in> {0, 1}"
    by simp_all
  show ?thesis
    by (rule Boolean_low_bit_invariant [OF b b(1) i t])
qed

section \<open>Sharing Beaver triples\<close>

lemma ShareBeaverTriples_shares:
  assumes "unat (bitsize ss) \<le> 32"
      and "ShareBeaverTriples ss bt_vec g = ((v0, v1), g')"
  shows "length v0 = length bt_vec \<and> length v1 = length bt_vec \<and>
    (\<forall>i<length bt_vec.
        (unat (bt_a (v0 ! i)) + unat (bt_a (v1 ! i))) mod 2 ^ unat (bitsize ss)
          = unat (bt_a (bt_vec ! i)) mod 2 ^ unat (bitsize ss)
      \<and> (unat (bt_b (v0 ! i)) + unat (bt_b (v1 ! i))) mod 2 ^ unat (bitsize ss)
          = unat (bt_b (bt_vec ! i)) mod 2 ^ unat (bitsize ss)
      \<and> (unat (bt_c (v0 ! i)) + unat (bt_c (v1 ! i))) mod 2 ^ unat (bitsize ss)
          = unat (bt_c (bt_vec ! i)) mod 2 ^ unat (bitsize ss))"
  using assms(2)
proof (induction bt_vec arbitrary: g v0 v1 g')
  case Nil
  then show ?case by simp
next
  case (Cons bt bt_vec)
  obtain w0 w1 g'' where rec: "ShareBeaverTriples ss bt_vec (\<lambda>n. g (Suc (Suc (Suc n)))) = ((w0, w1), g'')"
    by (metis surj_pair)
  let ?k = "bitsize ss"
  let ?a0 = "Mod (ucast (g 0)) ?k" and ?b0 = "Mod (ucast (g 1)) ?k" and ?c0 = "Mod (ucast (g 2)) ?k"
  from Cons.prems rec
  have v0: "v0 = \<lparr>bt_a = ?a0, bt_b = ?b0, bt_c = ?c0\<rparr> # w0"
   and v1: "v1 = \<lparr>bt_a = Mod (bt_a bt - ?a0) ?k, bt_b = Mod (bt_b bt - ?b0) ?k,
                   bt_c = Mod (bt_c bt - ?c0) ?k\<rparr> # w1"
    by (simp_all add: Rand64_def Let_def numeral_2_eq_2)
  note IH = Cons.IH [OF rec]
  show ?case
    unfolding v0 v1 using IH
    by (auto simp add: nth_Cons' Share_sum [OF assms(1)])
qed

lemma Bool_ShareBeaverTriples_shares:
  assumes "Bool_ShareBeaverTriples bt_vec g = ((v0, v1), g')"
  shows "length v0 = length bt_vec \<and> length v1 = length bt_vec \<and>
    (\<forall>i<length bt_vec.
        bt_a (v0 ! i) XOR bt_a (v1 ! i) = bt_a (bt_vec ! i)
      \<and> bt_b (v0 ! i) XOR bt_b (v1 ! i) = bt_b (bt_vec ! i)
      \<and> bt_c (v0 ! i) XOR bt_c (v1 ! i) = bt_c (bt_vec ! i))"
  using assms
proof (induction bt_vec arbitrary: g v0 v1 g')
  case Nil
  then show ?case by simp
next
  case (Cons bt bt_vec)
  obtain w0 w1 g'' where rec: "Bool_ShareBeaverTriples bt_vec (\<lambda>n. g (Suc (Suc (Suc n)))) = ((w0, w1), g'')"
    by (metis surj_pair)
  from Cons.prems rec
  have v0: "v0 = \<lparr>bt_a = of_bool32 (g 0), bt_b = of_bool32 (g 1), bt_c = of_bool32 (g 2)\<rparr> # w0"
   and v1: "v1 = \<lparr>bt_a = bt_a bt XOR of_bool32 (g 0), bt_b = bt_b bt XOR of_bool32 (g 1),
                   bt_c = bt_c bt XOR of_bool32 (g 2)\<rparr> # w1"
    by (simp_all add: RandBool_def Let_def numeral_2_eq_2)
  note IH = Cons.IH [OF rec]
  have x: "\<And>p q :: u32. p XOR (q XOR p) = q"
    by (simp add: ac_simps)
  show ?case
    unfolding v0 v1 using IH
    by (auto simp add: nth_Cons' x)
qed

text \<open>
  Claim C2. For every vector of clear triples and every state of the random generator,
  \<open>ShareBeaverTriples\<close> returns two vectors of the length of the input whose components
  combine, index by index, to the input triple: by addition modulo \<open>2 ^ k\<close> in the
  arithmetic engine, by XOR in the boolean engine. In particular the two \<open>c\<close>-shares
  combine to \<open>a * b\<close> (to \<open>a AND b\<close>) whenever the clear \<open>c\<close> is that product.
\<close>

theorem ShareBeaverTriples_combine:
  assumes "2 \<le> unat (bitsize ss)" and "unat (bitsize ss) \<le> 32"
      and "ShareBeaverTriples ss bt_vec g = ((v0, v1), g')"
      and "Bool_ShareBeaverTriples btb_vec gb = ((w0, w1), gb')"
  shows "length v0 = length bt_vec \<and> length v1 = length bt_vec \<and>
    (\<forall>i<length bt_vec.
        (unat (bt_a (v0 ! i)) + unat (bt_a (v1 ! i))) mod 2 ^ unat (bitsize ss)
          = unat (bt_a (bt_vec ! i)) mod 2 ^ unat (bitsize ss)
      \<and> (unat (bt_b (v0 ! i)) + unat (bt_b (v1 ! i))) mod 2 ^ unat (bitsize ss)
          = unat (bt_b (bt_vec ! i)) mod 2 ^ unat (bitsize ss)
      \<and> (unat (bt_c (v0 ! i)) + unat (bt_c (v1 ! i))) mod 2 ^ unat (bitsize ss)
          = unat (bt_c (bt_vec ! i)) mod 2 ^ unat (bitsize ss)
      \<and> (unat (bt_c (bt_vec ! i)) mod 2 ^ unat (bitsize ss)
            = (unat (bt_a (bt_vec ! i)) * unat (bt_b (bt_vec ! i))) mod 2 ^ unat (bitsize ss)
          \<longrightarrow> (unat (bt_c (v0 ! i)) + unat (bt_c (v1 ! i))) mod 2 ^ unat (bitsize ss)
            = (unat (bt_a (bt_vec ! i)) * unat (bt_b (bt_vec ! i))) mod 2 ^ unat (bitsize ss)))
    \<and> length w0 = length btb_vec \<and> length w1 = length btb_vec \<and>
    (\<forall>i<length btb_vec.
        bt_a (w0 ! i) XOR bt_a (w1 ! i) = bt_a (btb_vec ! i)
      \<and> bt_b (w0 ! i) XOR bt_b (w1 ! i) = bt_b (btb_vec ! i)
      \<and> bt_c (w0 ! i) XOR bt_c (w1 ! i) = bt_c (btb_vec ! i)
      \<and> (bt_c (btb_vec ! i) = bt_a (btb_vec ! i) AND bt_b (btb_vec ! i)
          \<longrightarrow> bt_c (w0 ! i) XOR bt_c (w1 ! i) = bt_a (btb_vec ! i) AND bt_b (btb_vec ! i)))"
  using ShareBeaverTriples_shares [OF assms(2,3)] Bool_ShareBeaverTriples_shares [OF assms(4)]
  by simp

theorem ShareBeaverTriples_combine_witness:
  "ShareBeaverTriples \<lparr>bitsize = 8\<rparr> [\<lparr>bt_a = 3, bt_b = 5, bt_c = 15\<rparr>] (\<lambda>n. 7)
     = (([\<lparr>bt_a = 7, bt_b = 7, bt_c = 7\<rparr>], [\<lparr>bt_a = 252, bt_b = 254, bt_c = 8\<rparr>]), \<lambda>n. 7)
   \<and> Bool_ShareBeaverTriples [\<lparr>bt_a = 1, bt_b = 1, bt_c = 1\<rparr>] (\<lambda>n. True)
     = (([\<lparr>bt_a = 1, bt_b = 1, bt_c = 1\<rparr>], [\<lparr>bt_a = 0, bt_b = 0, bt_c = 0\<rparr>]), \<lambda>n. True)
   \<and> (unat (7 :: u32) + unat (252 :: u32)) mod 2 ^ 8 = unat (3 :: u32) mod 2 ^ 8
   \<and> (unat (7 :: u32) + unat (254 :: u32)) mod 2 ^ 8 = unat (5 :: u32) mod 2 ^ 8
   \<and> (unat (7 :: u32) + unat (8 :: u32)) mod 2 ^ 8 = (unat (3 :: u32) * unat (5 :: u32)) mod 2 ^ 8
   \<and> (1 :: u32) XOR 0 = 1 AND 1"
proof -
  let ?ss = "\<lparr>bitsize = 8\<rparr>"
  have k: "2 \<le> unat (bitsize ?ss)" "unat (bitsize ?ss) \<le> 32"
    by simp_all
  have s: "ShareBeaverTriples ?ss [\<lparr>bt_a = 3, bt_b = 5, bt_c = 15\<rparr>] (\<lambda>n. 7)
     = (([\<lparr>bt_a = 7, bt_b = 7, bt_c = 7\<rparr>], [\<lparr>bt_a = 252, bt_b = 254, bt_c = 8\<rparr>]), \<lambda>n. 7)"
    by (simp add: Rand64_def Mod_take_bit Let_def mask_eq_exp_minus_1)
  have b: "Bool_ShareBeaverTriples [\<lparr>bt_a = 1, bt_b = 1, bt_c = 1\<rparr>] (\<lambda>n. True)
     = (([\<lparr>bt_a = 1, bt_b = 1, bt_c = 1\<rparr>], [\<lparr>bt_a = 0, bt_b = 0, bt_c = 0\<rparr>]), \<lambda>n. True)"
    by (simp add: RandBool_def of_bool32_def Let_def)
  show ?thesis
    using ShareBeaverTriples_combine [OF k s b] s b by simp
qed

section \<open>Starting a party twice\<close>

text \<open>
  Claim C7, as the code has it. When the started latch is set, \<open>StartCommunication\<close>
  makes no system call and leaves the party id, the sockets and addresses of both
  endpoints and the latch as they are, but it resets the bytes-sent counter of the
  party's own endpoint (the server for party 0, the client otherwise) to 0: the
  counter is cleared before the latch is tested.
\<close>

theorem StartCommunication_restart:
  assumes "is_started party"
  shows "StartCommunication party w =
           Inr (if party_id party = 0
                then party\<lparr>p0 := (p0 party)\<lparr>total_bytes_sent := 0\<rparr>\<rparr>
                else party\<lparr>p1 := (p1 party)\<lparr>cl_total_bytes_sent := 0\<rparr>\<rparr>, w)
       \<and> GetTotalBytesSent (fst (projr (StartCommunication party w))) = 0"
  using assms
  by (simp add: StartCommunication_def ClearTotalBytesSent_def Server_ClearTotalBytesSent_def
        Client_ClearTotalBytesSent_def GetTotalBytesSent_def Let_def)

theorem StartCommunication_restart_witness:
  "is_started ((test_party 1)\<lparr>p1 := (p1 (test_party 1))\<lparr>cl_total_bytes_sent := 8\<rparr>\<rparr>)
   \<and> StartCommunication ((test_party 1)\<lparr>p1 := (p1 (test_party 1))\<lparr>cl_total_bytes_sent := 8\<rparr>\<rparr>)
         \<lparr>pending = [5, 0], calls = []\<rparr>
       = Inr (test_party 1, \<lparr>pending = [5, 0], calls = []\<rparr>)"
  using StartCommunication_restart
    [of "(test_party 1)\<lparr>p1 := (p1 (test_party 1))\<lparr>cl_total_bytes_sent := 8\<rparr>\<rparr>"
        "\<lparr>pending = [5, 0], calls = []\<rparr>"]
  by (simp add: test_party_def)

text \<open>
  Claim C7 as stated (the whole party state is unchanged, the counter keeps its value)
  fails for a started party 0 that has sent 8 bytes: after the second call the counter
  is 0.
\<close>

theorem StartCommunication_restart_counterexample:
  "is_started ((test_party 0)\<lparr>p0 := (p0 (test_party 0))\<lparr>total_bytes_sent := 8\<rparr>\<rparr>)
   \<and> StartCommunication ((test_party 0)\<lparr>p0 := (p0 (test_party 0))\<lparr>total_bytes_sent := 8\<rparr>\<rparr>)
         \<lparr>pending = [], calls = []\<rparr>
       = Inr (test_party 0, \<lparr>pending = [], calls = []\<rparr>)
   \<and> GetTotalBytesSent ((test_party 0)\<lparr>p0 := (p0 (test_party 0))\<lparr>total_bytes_sent := 8\<rparr>\<rparr>) = 8
   \<and> GetTotalBytesSent (test_party 0) = 0
   \<and> test_party 0 \<noteq> (test_party 0)\<lparr>p0 := (p0 (test_party 0))\<lparr>total_bytes_sent := 8\<rparr>\<rparr>"
  by (simp add: StartCommunication_def ClearTotalBytesSent_def Server_ClearTotalBytesSent_def
        GetTotalBytesSent_def test_party_def Let_def)

section \<open>Short writes and short reads\<close>

text \<open>
  Claim C3 says that \<open>SendData\<close> puts exactly the bytes of the buffer on the wire, once
  and in order, and that \<open>RecvData\<close> fills the buffer with the next bytes of the stream,
  for every sequence of short transfers. The loops call \<open>send\<close> and \<open>recv\<close> with the start
  of the buffer and its full size every time: after a short write of 2 of 4 bytes the
  first two bytes are sent again, and after a short read the next bytes overwrite the
  start of the buffer.
\<close>

theorem SendData_RecvData_short_transfer:
  "SendData [1, 2, 3, 4] [2, 2] = Some (True, [1, 2, 1, 2])
   \<and> RecvData [0, 0, 0, 0] [2, 2] [1, 2, 3, 4] = Some (True, [3, 4, 0, 0], [])"
  by (simp add: SendData_def RecvData_def)

section \<open>Vector multiplication\<close>

lemma for_upto_invariant:
  assumes step: "\<And>i s. i < n \<Longrightarrow> I i s \<Longrightarrow> \<exists>s'. body i s = Inr s' \<and> I (Suc i) s'"
      and init: "I 0 s"
  shows "\<exists>s'. for_upto n body s = Inr s' \<and> I n s'"
  using step
proof (induction n)
  case 0
  show ?case using init by simp
next
  case (Suc n)
  have "\<exists>s'. for_upto n body s = Inr s' \<and> I n s'"
    by (rule Suc.IH) (simp add: Suc.prems)
  then obtain s1 where s1: "for_upto n body s = Inr s1" "I n s1"
    by blast
  obtain s2 where s2: "body n s1 = Inr s2" "I (Suc n) s2"
    using Suc.prems [of n s1] s1(2) by blast
  show ?case
    using s1(1) s2 by simp
qed

lemma Mult_vec_loop1:
  assumes "num \<le> length x_vec" and "num \<le> length y_vec" and "num \<le> length bt_vec"
  shows "\<exists>d. length d = 2 * num \<and>
           (\<forall>j<num. d ! (2 * j) = Mod (x_vec ! j - bt_a (bt_vec ! j)) (bitsize ss)
                \<and> d ! (2 * j + 1) = Mod (y_vec ! j - bt_b (bt_vec ! j)) (bitsize ss)) \<and>
           for_upto num (Mult_vec_diff ss P bt_vec x_vec y_vec)
             (replicate (num * 2) 0, replicate (num * 2) 0)
           = Inr (if party_id P = 0 then (d, replicate (num * 2) 0) else (replicate (num * 2) 0, d))"
proof -
  let ?z = "replicate (num * 2) (0 :: u32)"
  let ?D = "\<lambda>i (d :: u32 list). length d = 2 * num \<and>
     (\<forall>j<i. d ! (2 * j) = Mod (x_vec ! j - bt_a (bt_vec ! j)) (bitsize ss)
          \<and> d ! (2 * j + 1) = Mod (y_vec ! j - bt_b (bt_vec ! j)) (bitsize ss))"
  let ?I = "\<lambda>i s. \<exists>d. ?D i d \<and> s = (if party_id P = 0 then (d, ?z) else (?z, d))"
  have "\<exists>s'. for_upto num (Mult_vec_diff ss P bt_vec x_vec y_vec) (?z, ?z) = Inr s' \<and> ?I num s'"
  proof (rule for_upto_invariant [where I = ?I])
    show "?I 0 (?z, ?z)"
      by auto
  next
    fix i s
    assume i: "i < num" and "?I i s"
    then obtain d where d: "?D i d"
      and s: "s = (if party_id P = 0 then (d, ?z) else (?z, d))"
      by blast
    let ?d' = "d[2 * i := Mod (x_vec ! i - bt_a (bt_vec ! i)) (bitsize ss),
                 2 * i + 1 := Mod (y_vec ! i - bt_b (bt_vec ! i)) (bitsize ss)]"
    have "Mult_vec_diff ss P bt_vec x_vec y_vec i s
            = Inr (if party_id P = 0 then (?d', ?z) else (?z, ?d'))"
      using i assms by (simp add: Mult_vec_diff_def at_def GetId_def s Let_def)
    moreover have "?D (Suc i) ?d'"
      using d i by (auto simp add: less_Suc_eq nth_list_update)
    ultimately show "\<exists>s'. Mult_vec_diff ss P bt_vec x_vec y_vec i s = Inr s' \<and> ?I (Suc i) s'"
      by blast
  qed
  then show ?thesis by blast
qed

lemma Reconst_vec_loop:
  assumes "length x0 = n" and "length x1 = n" and "length out = n"
  shows "\<exists>out'. for_upto n (Reconst_vec_step ss x0 x1) out = Inr out' \<and> length out' = n
           \<and> (\<forall>j<n. out' ! j = Mod (x0 ! j + x1 ! j) (bitsize ss))"
proof -
  let ?I = "\<lambda>i (s :: u32 list). length s = n \<and> (\<forall>j<i. s ! j = Mod (x0 ! j + x1 ! j) (bitsize ss))"
  have "\<exists>s'. for_upto n (Reconst_vec_step ss x0 x1) out = Inr s' \<and> ?I n s'"
  proof (rule for_upto_invariant [where I = ?I])
    show "?I 0 out" using assms by simp
  next
    fix i s
    assume "i < n" and "?I i s"
    then show "\<exists>s'. Reconst_vec_step ss x0 x1 i s = Inr s' \<and> ?I (Suc i) s'"
      using assms by (auto simp add: Reconst_vec_step_def at_def less_Suc_eq nth_list_update)
  qed
  then show ?thesis by blast
qed

lemma Mult_vec_loop2:
  assumes "num \<le> length bt_vec" and "length de = 2 * num" and "length z_vec = num"
  shows "\<exists>z'. for_upto num (Mult_vec_combine ss P bt_vec de) z_vec = Inr z' \<and> length z' = num
           \<and> (\<forall>j<num. z' ! j =
                 (if party_id P = 0
                  then Mod ((de ! (2 * j + 1) * bt_a (bt_vec ! j)) + (de ! (2 * j) * bt_b (bt_vec ! j))
                            + bt_c (bt_vec ! j) + (de ! (2 * j) * de ! (2 * j + 1))) (bitsize ss)
                  else Mod ((de ! (2 * j + 1) * bt_a (bt_vec ! j)) + (de ! (2 * j) * bt_b (bt_vec ! j))
                            + bt_c (bt_vec ! j)) (bitsize ss)))"
proof -
  let ?f = "\<lambda>j. (if party_id P = 0
                  then Mod ((de ! (2 * j + 1) * bt_a (bt_vec ! j)) + (de ! (2 * j) * bt_b (bt_vec ! j))
                            + bt_c (bt_vec ! j) + (de ! (2 * j) * de ! (2 * j + 1))) (bitsize ss)
                  else Mod ((de ! (2 * j + 1) * bt_a (bt_vec ! j)) + (de ! (2 * j) * bt_b (bt_vec ! j))
                            + bt_c (bt_vec ! j)) (bitsize ss))"
  let ?I = "\<lambda>i (s :: u32 list). length s = num \<and> (\<forall>j<i. s ! j = ?f j)"
  have "\<exists>s'. for_upto num (Mult_vec_combine ss P bt_vec de) z_vec = Inr s' \<and> ?I num s'"
  proof (rule for_upto_invariant [where I = ?I])
    show "?I 0 z_vec" using assms by simp
  next
    fix i s
    assume i: "i < num" and I: "?I i s"
    have "Mult_vec_combine ss P bt_vec de i s = Inr (s[i := ?f i])"
      using i assms by (simp add: Mult_vec_combine_def at_def GetId_def)
    moreover have "?I (Suc i) (s[i := ?f i])"
      using i I by (auto simp add: less_Suc_eq nth_list_update simp del: mult_Suc_right)
    ultimately show "\<exists>s'. Mult_vec_combine ss P bt_vec de i s = Inr s' \<and> ?I (Suc i) s'"
      by blast
  qed
  then show ?thesis by blast
qed


text \<open>
  Claim C6, as the code has it. The vector \<open>Mult\<close> compares no lengths. It performs as
  many multiplications as \<open>z_vec\<close> has entries, on the entries of \<open>x_vec\<close>, \<open>y_vec\<close> and
  \<open>bt_vec\<close> at those indices: whenever each of the three has at least that many entries
  (of equal length or not) and the peer supplies two masked differences per
  multiplication, it returns one output share per entry of \<open>z_vec\<close>, and output and
  sent differences at each index are those of the scalar \<open>Mult\<close> on the entries at that
  index.
\<close>

theorem Mult_vec_no_length_check:
  assumes "length z_vec \<le> length x_vec" and "length z_vec \<le> length y_vec"
      and "length z_vec \<le> length bt_vec" and "length incoming = 2 * length z_vec"
  shows "\<exists>z' sent. Mult_vec ss P bt_vec x_vec y_vec z_vec incoming = Inr (z', sent)
           \<and> length z' = length z_vec \<and> length sent = 2 * length z_vec
           \<and> (\<forall>i<length z_vec.
                 (z' ! i, (sent ! (2 * i), sent ! (2 * i + 1)))
                   = Mult ss P (bt_vec ! i) (x_vec ! i) (y_vec ! i)
                       (incoming ! (2 * i), incoming ! (2 * i + 1)))"
proof -
  let ?num = "length z_vec"
  let ?z = "replicate (?num * 2) (0 :: u32)"
  obtain d where len_d: "length d = 2 * ?num"
    and d: "\<And>j. j < ?num \<Longrightarrow> d ! (2 * j) = Mod (x_vec ! j - bt_a (bt_vec ! j)) (bitsize ss)
                \<and> d ! (2 * j + 1) = Mod (y_vec ! j - bt_b (bt_vec ! j)) (bitsize ss)"
    and l1: "for_upto ?num (Mult_vec_diff ss P bt_vec x_vec y_vec) (?z, ?z)
           = Inr (if party_id P = 0 then (d, ?z) else (?z, d))"
    using Mult_vec_loop1 [OF assms(1-3), of ss P] by blast
  let ?x0 = "if party_id P = 0 then d else incoming"
  let ?x1 = "if party_id P = 0 then incoming else d"
  have sr: "SendRecv_vec P (if party_id P = 0 then d else ?z) (if party_id P = 0 then ?z else d) incoming
              = Inr ((?x0, ?x1), d)"
    using assms(4) by (simp add: SendRecv_vec_def RecvVector_def)
  obtain de where l2: "for_upto (2 * ?num) (Reconst_vec_step ss ?x0 ?x1) ?z = Inr de"
    and len_de: "length de = 2 * ?num"
    and de: "\<And>j. j < 2 * ?num \<Longrightarrow> de ! j = Mod (?x0 ! j + ?x1 ! j) (bitsize ss)"
  proof -
    have "length ?x0 = 2 * ?num" "length ?x1 = 2 * ?num" "length ?z = 2 * ?num"
      using len_d assms(4) by simp_all
    from Reconst_vec_loop [OF this, of ss] that show thesis
      by blast
  qed
  have rc: "Reconst_vec ss P (if party_id P = 0 then d else ?z) (if party_id P = 0 then ?z else d) ?z incoming
              = Inr (de, d)"
    unfolding Reconst_vec_def sr using l2 by (simp add: mult.commute)
  obtain z' where l3: "for_upto ?num (Mult_vec_combine ss P bt_vec de) z_vec = Inr z'"
    and len_z: "length z' = ?num"
    and z: "\<And>j. j < ?num \<Longrightarrow> z' ! j =
                 (if party_id P = 0
                  then Mod ((de ! (2 * j + 1) * bt_a (bt_vec ! j)) + (de ! (2 * j) * bt_b (bt_vec ! j))
                            + bt_c (bt_vec ! j) + (de ! (2 * j) * de ! (2 * j + 1))) (bitsize ss)
                  else Mod ((de ! (2 * j + 1) * bt_a (bt_vec ! j)) + (de ! (2 * j) * bt_b (bt_vec ! j))
                            + bt_c (bt_vec ! j)) (bitsize ss))"
    using Mult_vec_loop2 [OF assms(3) len_de refl, of ss P] by blast
  have run: "Mult_vec ss P bt_vec x_vec y_vec z_vec incoming = Inr (z', d)"
    unfolding Mult_vec_def Let_def l1 using rc l3 by (cases "party_id P = 0") simp_all
  have "(z' ! i, (d ! (2 * i), d ! (2 * i + 1)))
          = Mult ss P (bt_vec ! i) (x_vec ! i) (y_vec ! i) (incoming ! (2 * i), incoming ! (2 * i + 1))"
    if i: "i < ?num" for i
  proof -
    have j: "2 * i < 2 * ?num" "2 * i + 1 < 2 * ?num"
      using i by simp_all
    show ?thesis
    proof (cases "party_id P = 0")
      case True
      show ?thesis
        unfolding Mult_party0 [OF True] Let_def
        using z [OF i] d [OF i] de [OF j(1)] de [OF j(2)] True by simp
    next
      case False
      show ?thesis
        unfolding Mult_party1 [OF False] Let_def
        using z [OF i] d [OF i] de [OF j(1)] de [OF j(2)] False by simp
    qed
  qed
  with run len_z len_d show ?thesis by blast
qed

theorem Mult_vec_no_length_check_witness:
  "Mult_vec \<lparr>bitsize = 8\<rparr> (test_party 0) [\<lparr>bt_a = 1, bt_b = 2, bt_c = 10\<rparr>] [2, 9] [1] [0] [3, 2]
     = Inr ([23], [1, 255])
   \<and> Mult \<lparr>bitsize = 8\<rparr> (test_party 0) \<lparr>bt_a = 1, bt_b = 2, bt_c = 10\<rparr> 2 1 (3, 2)
     = (23, (1, 255))"
proof -
  let ?ss = "\<lparr>bitsize = 8\<rparr>" and ?bt = "\<lparr>bt_a = 1, bt_b = 2, bt_c = 10\<rparr>"
  have l: "length [0 :: u32] \<le> length [2, 9 :: u32]" "length [0 :: u32] \<le> length [1 :: u32]"
    "length [0 :: u32] \<le> length [?bt]" "length [3, 2 :: u32] = 2 * length [0 :: u32]"
    by simp_all
  have m: "Mult ?ss (test_party 0) ?bt 2 1 (3, 2) = (23, (1, 255))"
    by (simp add: Mult_party0 test_party_def Mod_take_bit Let_def mask_eq_exp_minus_1)
  obtain z' sent where r: "Mult_vec ?ss (test_party 0) [?bt] [2, 9] [1] [0] [3, 2] = Inr (z', sent)"
    and len: "length z' = 1" "length sent = 2"
    and e: "(z' ! 0, (sent ! 0, sent ! 1)) = Mult ?ss (test_party 0) ?bt 2 1 (3, 2)"
    using Mult_vec_no_length_check [OF l, of ?ss "test_party 0"] by auto
  have "z' = [23]"
    using len(1) e m by (cases z') auto
  moreover have "sent = [1, 255]"
    using len(2) e m by (cases sent; cases "tl sent") auto
  ultimately show ?thesis
    using r m by simp
qed

text \<open>
  Claim C6 as stated (operands of different lengths are refused) fails: with two
  entries in \<open>x_vec\<close> and one in \<open>y_vec\<close>, \<open>bt_vec\<close> and \<open>z_vec\<close> the operation proceeds and
  returns a product share. With an empty \<open>x_vec\<close> the first loop reads past its end.
\<close>

theorem Mult_vec_length_mismatch_counterexample:
  "length [2, 9 :: u32] \<noteq> length [1 :: u32]
   \<and> length [2, 9 :: u32] \<noteq> length [\<lparr>bt_a = 1, bt_b = 2, bt_c = 10\<rparr>]
   \<and> Mult_vec \<lparr>bitsize = 8\<rparr> (test_party 0) [\<lparr>bt_a = 1, bt_b = 2, bt_c = 10\<rparr>] [2, 9] [1] [0] [3, 2]
     = Inr ([23], [1, 255])
   \<and> Mult_vec \<lparr>bitsize = 8\<rparr> (test_party 0) [\<lparr>bt_a = 1, bt_b = 2, bt_c = 10\<rparr>] [] [1] [0] [3, 2]
     = Inl OutOfRange"
proof -
  have two: "replicate 2 (0 :: u32) = [0, 0]"
    by (simp add: numeral_2_eq_2)
  show ?thesis
    by (simp add: Mult_vec_def Mult_vec_diff_def Mult_vec_combine_def Reconst_vec_def
        Reconst_vec_step_def SendRecv_vec_def RecvVector_def at_def GetId_def test_party_def
        Mod_take_bit Let_def mask_eq_exp_minus_1 two)
qed

section \<open>Writing and reading triples\<close>

declare to_decimal.simps [simp del]

lemma digit_val_digit_char: "d < 10 \<Longrightarrow> digit_val (digit_char d) = Some d"
proof -
  assume "d < 10"
  then have "d \<in> {0, 1, 2, 3, 4, 5, 6, 7, 8, 9}"
    by auto
  then show ?thesis
    by (auto simp add: digit_val_def digit_char_def)
qed

lemma digit_char_plain: "d < 10 \<Longrightarrow> digit_char d \<noteq> CHR '','' \<and> digit_char d \<noteq> CHR 0x0A"
proof -
  assume "d < 10"
  then have "d \<in> {0, 1, 2, 3, 4, 5, 6, 7, 8, 9}"
    by auto
  then show ?thesis
    by (auto simp add: digit_char_def)
qed

lemma to_decimal_nonempty: "to_decimal n \<noteq> []"
  by (subst to_decimal.simps) simp

lemma to_decimal_plain:
  "ch \<in> set (to_decimal n) \<Longrightarrow> ch \<noteq> CHR '','' \<and> ch \<noteq> CHR 0x0A"
proof (induction n rule: to_decimal.induct)
  case (1 n)
  show ?case
  proof (cases "n < 10")
    case True
    with "1.prems" [unfolded to_decimal.simps [of n]] show ?thesis
      by (simp add: digit_char_plain)
  next
    case False
    with "1.prems" [unfolded to_decimal.simps [of n]] "1.IH" show ?thesis
      by (auto simp add: digit_char_plain)
  qed
qed

lemma parse_digits_append:
  "parse_digits acc (xs @ ys) =
     (case parse_digits acc xs of None \<Rightarrow> None | Some m \<Rightarrow> parse_digits m ys)"
  by (induction xs arbitrary: acc) (auto split: option.splits)

lemma parse_digits_to_decimal: "parse_digits 0 (to_decimal n) = Some n"
proof (induction n rule: to_decimal.induct)
  case (1 n)
  show ?case
  proof (cases "n < 10")
    case True
    then show ?thesis
      by (subst to_decimal.simps) (simp add: digit_val_digit_char)
  next
    case False
    then show ?thesis
      using 1 by (subst to_decimal.simps) (simp add: parse_digits_append digit_val_digit_char)
  qed
qed

lemma parse_uint32_to_decimal: "parse_uint32 (to_decimal (unat w)) = Some w"
proof -
  have "unat w < 2 ^ 32"
    using unsigned_less [of w] by simp
  then show ?thesis
    by (simp add: parse_uint32_def to_decimal_nonempty parse_digits_to_decimal)
qed

lemma parse_uint32_length:
  "n < 2 ^ 32 \<Longrightarrow> parse_uint32 (to_decimal n) = Some (word_of_nat n)"
  by (simp add: parse_uint32_def to_decimal_nonempty parse_digits_to_decimal)

lemma getline_line:
  assumes "CHR 0x0A \<notin> set l"
  shows "getline (l @ CHR 0x0A # rest) = Some (l, rest)"
proof -
  have "takeWhile (\<lambda>ch. ch \<noteq> CHR 0x0A) (l @ CHR 0x0A # rest) = l"
    using assms by (induction l) auto
  moreover have "dropWhile (\<lambda>ch. ch \<noteq> CHR 0x0A) (l @ CHR 0x0A # rest) = CHR 0x0A # rest"
    using assms by (induction l) auto
  ultimately show ?thesis
    by (simp add: getline_def)
qed

lemma split_comma_field:
  assumes "CHR '','' \<notin> set s"
  shows "split_comma field (s @ CHR '','' # rest) = (field @ s) # split_comma [] rest"
  using assms by (induction s arbitrary: field) auto

lemma split_comma_last:
  assumes "CHR '','' \<notin> set s" and "field @ s \<noteq> []"
  shows "split_comma field s = [field @ s]"
  using assms by (induction s arbitrary: field) auto

lemma to_decimal_no_comma: "CHR '','' \<notin> set (to_decimal n)"
  using to_decimal_plain by blast

lemma to_decimal_no_newline: "CHR 0x0A \<notin> set (to_decimal n)"
  using to_decimal_plain by blast

lemma split_triple_line:
  "split_comma [] (to_decimal x @ '','' @ to_decimal y @ '','' @ to_decimal z)
     = [to_decimal x, to_decimal y, to_decimal z]"
  by (simp add: split_comma_field split_comma_last to_decimal_no_comma to_decimal_nonempty)

lemma SplitStringToUint32_line:
  "SplitStringToUint32 (to_decimal (unat x) @ '','' @ to_decimal (unat y) @ '','' @ to_decimal (unat z))
     = Inr [x, y, z]"
  unfolding SplitStringToUint32_def split_triple_line
  by (simp add: parse_uint32_to_decimal)

lemma read_triples_write_triples:
  "read_triples (length bt_vec) (write_triples bt_vec) acc = Inr (acc @ bt_vec)"
proof (induction bt_vec arbitrary: acc)
  case Nil
  show ?case by simp
next
  case (Cons bt bt_vec)
  let ?line = "to_decimal (unat (bt_a bt)) @ '','' @ to_decimal (unat (bt_b bt)) @ '','' @
     to_decimal (unat (bt_c bt))"
  have nl: "CHR 0x0A \<notin> set ?line"
    by (simp add: to_decimal_no_newline)
  have w: "write_triples (bt # bt_vec) = ?line @ CHR 0x0A # write_triples bt_vec"
    by simp
  have g: "getline (write_triples (bt # bt_vec)) = Some (?line, write_triples bt_vec)"
    unfolding w using nl by (rule getline_line)
  have bt: "\<lparr>bt_a = bt_a bt, bt_b = bt_b bt, bt_c = bt_c bt\<rparr> = bt"
    by simp
  show ?case
    using Cons.IH [of "acc @ [bt]"]
    by (simp only: length_Cons read_triples.simps g option.case prod.case
          SplitStringToUint32_line sum.case at_def)
       (simp add: bt)
qed

text \<open>
  Claim C9. Writing a vector of triples with \<open>WriteBeaverTriplesToFile\<close> (the element
  count on the first line, then one line \<open>a,b,c\<close> in decimal per triple) and reading
  the file back with \<open>ReadBeaverTriplesFromFile\<close> gives the vector that was written:
  the same length and the same \<open>a\<close>, \<open>b\<close>, \<open>c\<close> at every index, whatever the reader's
  vector held before. The count is read back as a \<open>uint32_t\<close>, so the vector has fewer
  than \<open>2 ^ 32\<close> elements.
\<close>

theorem BeaverTriples_file_roundtrip:
  assumes "length bt_vec < 2 ^ 32"
  shows "WriteBeaverTriplesToFile files True file_path bt_vec
           = Inr (files(file_path \<mapsto> to_decimal (length bt_vec) @ [CHR 0x0A] @ write_triples bt_vec))
       \<and> ReadBeaverTriplesFromFile
             (files(file_path \<mapsto> to_decimal (length bt_vec) @ [CHR 0x0A] @ write_triples bt_vec))
             file_path old
           = Inr bt_vec"
proof -
  let ?text = "to_decimal (length bt_vec) @ [CHR 0x0A] @ write_triples bt_vec"
  have "getline ?text = Some (to_decimal (length bt_vec), write_triples bt_vec)"
    using getline_line [OF to_decimal_no_newline] by simp
  then have "ReadNumCountFromFile ?text = (word_of_nat (length bt_vec), write_triples bt_vec)"
    using assms by (simp add: ReadNumCountFromFile_def parse_uint32_length)
  moreover have "unat (word_of_nat (length bt_vec) :: u32) = length bt_vec"
    using assms by (simp add: unat_of_nat)
  ultimately have "ReadBeaverTriplesFromFile (files(file_path \<mapsto> ?text)) file_path old = Inr bt_vec"
    using read_triples_write_triples [of bt_vec "[]"]
    by (simp add: ReadBeaverTriplesFromFile_def)
  then show ?thesis
    by (simp add: WriteBeaverTriplesToFile_def)
qed

theorem BeaverTriples_file_roundtrip_witness:
  "length [\<lparr>bt_a = 3, bt_b = 5, bt_c = 15\<rparr>, \<lparr>bt_a = 0, bt_b = 4294967295, bt_c = 0\<rparr>] < 2 ^ 32
   \<and> WriteBeaverTriplesToFile Map.empty True ''bt.dat''
         [\<lparr>bt_a = 3, bt_b = 5, bt_c = 15\<rparr>, \<lparr>bt_a = 0, bt_b = 4294967295, bt_c = 0\<rparr>]
       = Inr [''bt.dat'' \<mapsto> ''2'' @ [CHR 0x0A] @ ''3,5,15'' @ [CHR 0x0A] @ ''0,4294967295,0'' @ [CHR 0x0A]]
   \<and> ReadBeaverTriplesFromFile
         [''bt.dat'' \<mapsto> ''2'' @ [CHR 0x0A] @ ''3,5,15'' @ [CHR 0x0A] @ ''0,4294967295,0'' @ [CHR 0x0A]]
         ''bt.dat'' []
       = Inr [\<lparr>bt_a = 3, bt_b = 5, bt_c = 15\<rparr>, \<lparr>bt_a = 0, bt_b = 4294967295, bt_c = 0\<rparr>]"
proof -
  let ?v = "[\<lparr>bt_a = 3, bt_b = 5, bt_c = 15\<rparr>, \<lparr>bt_a = 0, bt_b = 4294967295, bt_c = 0\<rparr>]"
  have l: "length ?v < 2 ^ 32"
    by simp
  have d: "to_decimal (Suc (Suc 0)) = ''2''" "to_decimal 3 = ''3''" "to_decimal 5 = ''5''"
    "to_decimal 15 = ''15''" "to_decimal 0 = ''0''" "to_decimal 4294967295 = ''4294967295''"
    by (simp_all add: to_decimal.simps digit_char_def)
  have t: "to_decimal (length ?v) @ [CHR 0x0A] @ write_triples ?v
             = ''2'' @ [CHR 0x0A] @ ''3,5,15'' @ [CHR 0x0A] @ ''0,4294967295,0'' @ [CHR 0x0A]"
    by (simp add: d)
  show ?thesis
    using BeaverTriples_file_roundtrip [OF l, of Map.empty "''bt.dat''" "[]"] l
    unfolding t by simp
qed

end
